theory Spec2Isabelle
  imports Complex_Main
begin

section \<open>Loot log analyzer: parsing, sliding window, snapshots\<close>

text \<open>
  A shallow embedding of the core of \<^verbatim>\<open>Jinteia-Loot-Analyzer-FREE.py\<close>: the line parser
  (\<^verbatim>\<open>LOG_LINE_RE\<close>, \<^verbatim>\<open>parse_datetime_from_log\<close>, \<^verbatim>\<open>parse_log_line\<close>), the sliding window
  (\<^verbatim>\<open>LiveMonitorWorker.add_event\<close>), the statistics
  (\<^verbatim>\<open>LiveMonitorWorker.compute_stats_from_window\<close>) and the polling loop
  (\<^verbatim>\<open>LiveMonitorWorker.run\<close>).

  Python exceptions are values of \<open>py_error\<close>. A method that mutates \<^verbatim>\<open>self\<close> before it
  raises returns the mutated state together with the exception.
\<close>

datatype py_error = ValueError | OverflowError | OSError | ZeroDivisionError

subsection \<open>Timestamps\<close>

text \<open>
  \<^verbatim>\<open>dt.datetime\<close> at second resolution (the parser never produces microseconds). The
  position of a datetime on the time line follows the standard library's
  \<^verbatim>\<open>_ymd2ord\<close>: seconds since 0001-01-01 00:00:00. Python orders datetimes by that
  position, and \<^verbatim>\<open>datetime - timedelta\<close> moves along it, raising \<^verbatim>\<open>OverflowError\<close>
  when the result leaves the years 1 to 9999.
\<close>

record datetime =
  year :: nat
  month :: nat
  day :: nat
  hour :: nat
  minute :: nat
  second :: nat

definition is_leap :: "nat \<Rightarrow> bool" where
  "is_leap y = (y mod 4 = 0 \<and> (y mod 100 \<noteq> 0 \<or> y mod 400 = 0))"

definition days_in_month :: "nat \<Rightarrow> nat \<Rightarrow> nat" where
  "days_in_month y m =
     (if m = 2 then (if is_leap y then 29 else 28)
      else if m = 4 \<or> m = 6 \<or> m = 9 \<or> m = 11 then 30 else 31)"

definition days_before_year :: "nat \<Rightarrow> int" where
  "days_before_year y =
     (let p = int y - 1 in p * 365 + p div 4 - p div 100 + p div 400)"

definition days_before_month :: "nat \<Rightarrow> nat \<Rightarrow> int" where
  "days_before_month y m =
     int ([0, 0, 31, 59, 90, 120, 151, 181, 212, 243, 273, 304, 334] ! (min m 12))
       + (if 2 < m \<and> is_leap y then 1 else 0)"

definition ymd2ord :: "nat \<Rightarrow> nat \<Rightarrow> nat \<Rightarrow> int" where
  "ymd2ord y m d = days_before_year y + days_before_month y m + int d"

definition datetime_secs :: "datetime \<Rightarrow> int" where
  "datetime_secs t =
     (ymd2ord (year t) (month t) (day t) - 1) * 86400
       + int (hour t) * 3600 + int (minute t) * 60 + int (second t)"

text \<open>The last representable second, 9999-12-31 23:59:59.\<close>

definition max_secs :: int where
  "max_secs = 3652059 * 86400 - 1"

text \<open>
  \<^verbatim>\<open>t - dt.timedelta(minutes=m)\<close>: the position of the result, or \<^verbatim>\<open>OverflowError\<close>.
  (A timedelta too large to construct is also too large to subtract: both raise
  \<^verbatim>\<open>OverflowError\<close>.)
\<close>

definition minus_minutes :: "datetime \<Rightarrow> int \<Rightarrow> py_error + int" where
  "minus_minutes t m =
     (let r = datetime_secs t - 60 * m
      in if 0 \<le> r \<and> r \<le> max_secs then Inr r else Inl OverflowError)"

subsection \<open>Events\<close>

record LootEvent =
  ts :: datetime
  quantity :: int
  item :: string

definition is_yang :: "LootEvent \<Rightarrow> bool" where
  "is_yang ev = (item ev = ''Yang'')"

abbreviation ev_secs :: "LootEvent \<Rightarrow> int" where
  "ev_secs ev \<equiv> datetime_secs (ts ev)"

subsection \<open>The line grammar\<close>

text \<open>
  Strings are lists of 8-bit characters, read as the code points 0 to 255. In that range
  the class \<^verbatim>\<open>\d\<close> is exactly \<^verbatim>\<open>0\<close> to \<^verbatim>\<open>9\<close>, and \<^verbatim>\<open>.\<close> is every character but
  the newline.
\<close>

definition is_digit :: "char \<Rightarrow> bool" where
  "is_digit c = (c \<in> set ''0123456789'')"

definition newline :: char where
  "newline = CHR 0x0A"

datatype tok = Lit char | Digit

fun match_toks :: "tok list \<Rightarrow> string \<Rightarrow> string option" where
  "match_toks [] s = Some s"
| "match_toks (t # toks) [] = None"
| "match_toks (Lit c # toks) (x # xs) = (if x = c then match_toks toks xs else None)"
| "match_toks (Digit # toks) (x # xs) = (if is_digit x then match_toks toks xs else None)"

definition date_toks :: "tok list" where
  "date_toks = [Digit, Digit, Lit CHR ''/'', Digit, Digit, Lit CHR ''/'', Digit, Digit]"

definition time_toks :: "tok list" where
  "time_toks = [Digit, Digit, Lit CHR '':'', Digit, Digit, Lit CHR '':'', Digit, Digit]"

text \<open>
  The part of \<^verbatim>\<open>LOG_LINE_RE\<close> of fixed length,
  \<^verbatim>\<open>\[(\d{2}/\d{2}/\d{2})\] \[(\d{2}:\d{2}:\d{2})\]: You receive \<close>.
\<close>

definition header_toks :: "tok list" where
  "header_toks =
     Lit CHR ''['' # date_toks @ map Lit ''] ['' @ time_toks @ map Lit '']: You receive ''"

text \<open>
  A match of \<^verbatim>\<open>LOG_LINE_RE\<close> that starts at the head of \<open>s\<close>, as the groups
  \<open>(date_str, time_str, qty_str, item)\<close>. After the header, \<^verbatim>\<open>(\d+) \<close> is the longest
  run of digits, which must be non-empty and followed by a space (a shorter run is followed
  by a digit, so backtracking finds nothing else). The lazy \<^verbatim>\<open>(.+?)\.\<close> takes one
  character that is not a newline and then stops at the first period, which must come
  before any newline.
\<close>

definition match_here :: "string \<Rightarrow> (string \<times> string \<times> string \<times> string) option" where
  "match_here s =
     (case match_toks header_toks s of
        None \<Rightarrow> None
      | Some r \<Rightarrow>
          (let qty_str = takeWhile is_digit r
           in if qty_str = [] then None
              else (case dropWhile is_digit r of
                  sp # c # r' \<Rightarrow>
                    if sp \<noteq> CHR '' '' \<or> c = newline then None
                    else (let more = takeWhile (\<lambda>x. x \<noteq> CHR ''.'' \<and> x \<noteq> newline) r'
                          in case dropWhile (\<lambda>x. x \<noteq> CHR ''.'' \<and> x \<noteq> newline) r' of
                               p # _ \<Rightarrow>
                                 if p = CHR ''.''
                                 then Some (take 8 (drop 1 s), take 8 (drop 12 s), qty_str, c # more)
                                 else None
                             | [] \<Rightarrow> None)
                | _ \<Rightarrow> None)))"

text \<open>\<^verbatim>\<open>LOG_LINE_RE.search(line)\<close>: the match at the leftmost position that has one.\<close>

fun search :: "string \<Rightarrow> (string \<times> string \<times> string \<times> string) option" where
  "search [] = match_here []"
| "search (c # cs) =
     (case match_here (c # cs) of Some g \<Rightarrow> Some g | None \<Rightarrow> search cs)"

subsection \<open>Decimal numbers and the timestamp\<close>

definition digit_val :: "char \<Rightarrow> nat" where
  "digit_val c = of_char c - 48"

definition dec :: "string \<Rightarrow> nat" where
  "dec s = foldl (\<lambda>a c. 10 * a + digit_val c) 0 s"

text \<open>
  \<^verbatim>\<open>int(qty_str)\<close> on a string of digits. Since Python 3.11 the interpreter refuses, with
  \<^verbatim>\<open>ValueError\<close>, a decimal string of more than \<^verbatim>\<open>sys.get_int_max_str_digits()\<close> digits
  (4300 unless configured); \<open>0\<close> stands for no limit, as it does in Python.
\<close>

definition py_int :: "nat \<Rightarrow> string \<Rightarrow> py_error + int" where
  "py_int max_str_digits s =
     (if 0 < max_str_digits \<and> max_str_digits < length s then Inl ValueError
      else Inr (int (dec s)))"

text \<open>\<^verbatim>\<open>%y\<close>: 69 to 99 are 1969 to 1999, 00 to 68 are 2000 to 2068.\<close>

definition full_year :: "nat \<Rightarrow> nat" where
  "full_year yy = (if yy \<le> 68 then 2000 + yy else 1900 + yy)"

text \<open>
  What the \<^verbatim>\<open>datetime\<close> constructor (and \<^verbatim>\<open>strptime\<close> before it) accepts; everything
  else is a \<^verbatim>\<open>ValueError\<close>.
\<close>

definition valid_datetime :: "datetime \<Rightarrow> bool" where
  "valid_datetime t =
     (1 \<le> year t \<and> year t \<le> 9999 \<and> 1 \<le> month t \<and> month t \<le> 12
      \<and> 1 \<le> day t \<and> day t \<le> days_in_month (year t) (month t)
      \<and> hour t \<le> 23 \<and> minute t \<le> 59 \<and> second t \<le> 59)"

text \<open>
  \<^verbatim>\<open>dt.datetime.strptime(f"{date_str} {time_str}", "%d/%m/%y %H:%M:%S")\<close> on the strings
  the regular expression captures: two digits in every field. (On strings of another shape
  the model answers \<^verbatim>\<open>ValueError\<close>; \<^verbatim>\<open>parse_log_line\<close> never passes one.)
\<close>

definition parse_datetime_from_log :: "string \<Rightarrow> string \<Rightarrow> py_error + datetime" where
  "parse_datetime_from_log date_str time_str =
     (if match_toks date_toks date_str = Some [] \<and> match_toks time_toks time_str = Some []
      then (let t = \<lparr> year = full_year (dec (take 2 (drop 6 date_str))),
                       month = dec (take 2 (drop 3 date_str)),
                       day = dec (take 2 date_str),
                       hour = dec (take 2 time_str),
                       minute = dec (take 2 (drop 3 time_str)),
                       second = dec (take 2 (drop 6 time_str)) \<rparr>
            in if valid_datetime t then Inr t else Inl ValueError)
      else Inl ValueError)"

definition parse_log_line :: "nat \<Rightarrow> string \<Rightarrow> py_error + LootEvent option" where
  "parse_log_line max_str_digits line =
     (case search line of
        None \<Rightarrow> Inr None
      | Some (date_str, time_str, qty_str, item_str) \<Rightarrow>
          (case parse_datetime_from_log date_str time_str of
             Inl e \<Rightarrow> Inl e
           | Inr t \<Rightarrow>
               (case py_int max_str_digits qty_str of
                  Inl e \<Rightarrow> Inl e
                | Inr n \<Rightarrow> Inr (Some \<lparr> ts = t, quantity = n, item = item_str \<rparr>))))"

subsection \<open>The worker and its sliding window\<close>

record worker =
  window_minutes :: int
  refresh_secs :: int
  window :: "LootEvent list"

text \<open>
  \<^verbatim>\<open>while self.window and self.window[0].ts < cutoff: self.window.popleft()\<close>
\<close>

fun popleft_while :: "int \<Rightarrow> LootEvent list \<Rightarrow> LootEvent list" where
  "popleft_while cutoff [] = []"
| "popleft_while cutoff (x # xs) =
     (if ev_secs x < cutoff then popleft_while cutoff xs else x # xs)"

text \<open>
  \<^verbatim>\<open>add_event\<close>: the event is appended first, so it is in the window also when the
  cutoff cannot be computed.
\<close>

definition add_event :: "worker \<Rightarrow> LootEvent \<Rightarrow> worker \<times> py_error option" where
  "add_event self ev =
     (let window1 = window self @ [ev]
      in case minus_minutes (ts ev) (window_minutes self) of
           Inl e \<Rightarrow> (self\<lparr>window := window1\<rparr>, Some e)
         | Inr cutoff \<Rightarrow> (self\<lparr>window := popleft_while cutoff window1\<rparr>, None))"

text \<open>A sequence of \<^verbatim>\<open>add_event\<close> calls; an exception ends it.\<close>

fun add_events :: "worker \<Rightarrow> LootEvent list \<Rightarrow> worker \<times> py_error option" where
  "add_events self [] = (self, None)"
| "add_events self (ev # evs) =
     (case add_event self ev of
        (self1, Some e) \<Rightarrow> (self1, Some e)
      | (self1, None) \<Rightarrow> add_events self1 evs)"

subsection \<open>Floating point\<close>

text \<open>
  A Python \<^verbatim>\<open>float\<close> is an IEEE 754 double. \<open>Finite m e\<close> is the number \<open>m * 2 ^ e\<close>;
  the two zeros are not told apart, since the program never looks at the sign of a zero.
  Every operation computes the exact result and rounds it to the nearest double, ties to
  the even significand, as the hardware does; what the operations return is in the form
  with \<open>2 ^ 52 \<le> \<bar>m\<bar> < 2 ^ 53\<close> (or \<open>e = - 1074\<close> for a subnormal number).
\<close>

datatype double = Finite int int | PosInf | NegInf | NaN

definition double_val :: "double \<Rightarrow> rat" where
  "double_val x = (case x of Finite m e \<Rightarrow> of_int m * 2 powi e | _ \<Rightarrow> 0)"

text \<open>\<^verbatim>\<open>n.bit_length()\<close> for an integer that is not negative.\<close>

function bit_length :: "int \<Rightarrow> nat" where
  "bit_length n = (if n \<le> 0 then 0 else Suc (bit_length (n div 2)))"
  by pat_completeness auto
termination
  by (relation "measure nat") auto

declare bit_length.simps [simp del]

text \<open>\<open>p / q\<close> is at least \<open>2 ^ d\<close>, for positive \<open>p\<close> and \<open>q\<close>.\<close>

definition ratio_ge_pow2 :: "int \<Rightarrow> int \<Rightarrow> int \<Rightarrow> bool" where
  "ratio_ge_pow2 p q d = (if 0 \<le> d then q * 2 ^ nat d \<le> p else q \<le> p * 2 ^ nat (- d))"

text \<open>The integer part of the binary logarithm of \<open>p / q\<close>, for positive \<open>p\<close> and \<open>q\<close>.\<close>

definition floor_log2 :: "int \<Rightarrow> int \<Rightarrow> int" where
  "floor_log2 p q =
     (let d = int (bit_length p) - int (bit_length q)
      in if ratio_ge_pow2 p q d then d else d - 1)"

text \<open>\<open>n / d\<close> rounded to the nearest integer, ties to the even one, for positive \<open>d\<close>.\<close>

definition round_half_even :: "int \<Rightarrow> int \<Rightarrow> int" where
  "round_half_even n d =
     (let k = n div d; r = n mod d
      in if 2 * r < d then k
         else if d < 2 * r then k + 1
         else if even k then k else k + 1)"

text \<open>
  The double nearest to \<open>p / q\<close>, for positive \<open>p\<close> and \<open>q\<close>: 53 significant bits, no
  exponent below \<open>- 1022\<close>, and infinity from \<open>2 ^ 1024\<close> on.
\<close>

definition round_pos :: "int \<Rightarrow> int \<Rightarrow> double" where
  "round_pos p q =
     (let ex = max (floor_log2 p q) (- 1022);
          sh = 52 - ex;
          n = (if 0 \<le> sh then round_half_even (p * 2 ^ nat sh) q
               else round_half_even p (q * 2 ^ nat (- sh)))
      in if n = 0 then Finite 0 0
         else if n = 2 ^ 53 then (if 1023 \<le> ex then PosInf else Finite (2 ^ 52) (ex - 51))
         else if 1024 \<le> ex then PosInf
         else Finite n (ex - 52))"

definition dneg :: "double \<Rightarrow> double" where
  "dneg x = (case x of Finite m e \<Rightarrow> Finite (- m) e | PosInf \<Rightarrow> NegInf
             | NegInf \<Rightarrow> PosInf | NaN \<Rightarrow> NaN)"

text \<open>The double nearest to \<open>p / q\<close>, for \<open>q\<close> other than zero.\<close>

definition round_ratio :: "int \<Rightarrow> int \<Rightarrow> double" where
  "round_ratio p q =
     (if p = 0 then Finite 0 0
      else if (0 < p) = (0 < q) then round_pos \<bar>p\<bar> \<bar>q\<bar>
      else dneg (round_pos \<bar>p\<bar> \<bar>q\<bar>))"

definition is_finite :: "double \<Rightarrow> bool" where
  "is_finite x = (case x of Finite m e \<Rightarrow> True | _ \<Rightarrow> False)"

text \<open>
  The conversion of an \<^verbatim>\<open>int\<close> to a \<^verbatim>\<open>float\<close>, which Python makes before it divides
  an \<^verbatim>\<open>int\<close> by a \<^verbatim>\<open>float\<close>: \<^verbatim>\<open>OverflowError\<close> when the integer is too large.
\<close>

definition int_to_float :: "int \<Rightarrow> py_error + double" where
  "int_to_float n =
     (let x = round_ratio n 1 in if is_finite x then Inr x else Inl OverflowError)"

text \<open>\<^verbatim>\<open>a / b\<close> on two \<^verbatim>\<open>int\<close>s: the quotient correctly rounded.\<close>

definition int_truediv :: "int \<Rightarrow> int \<Rightarrow> py_error + double" where
  "int_truediv a b =
     (if b = 0 then Inl ZeroDivisionError
      else (let x = round_ratio a b in if is_finite x then Inr x else Inl OverflowError))"

text \<open>
  \<^verbatim>\<open>x / y\<close> on two \<^verbatim>\<open>float\<close>s: \<^verbatim>\<open>ZeroDivisionError\<close> on a zero divisor, and otherwise
  the IEEE quotient, which overflows to an infinity without an exception.
\<close>

fun float_div :: "double \<Rightarrow> double \<Rightarrow> py_error + double" where
  "float_div (Finite m1 e1) (Finite m2 e2) =
     (if m2 = 0 then Inl ZeroDivisionError
      else Inr (round_ratio (m1 * 2 ^ nat (e1 - min e1 e2)) (m2 * 2 ^ nat (e2 - min e1 e2))))"
| "float_div NaN (Finite m2 e2) = (if m2 = 0 then Inl ZeroDivisionError else Inr NaN)"
| "float_div PosInf (Finite m2 e2) =
     (if m2 = 0 then Inl ZeroDivisionError else Inr (if 0 < m2 then PosInf else NegInf))"
| "float_div NegInf (Finite m2 e2) =
     (if m2 = 0 then Inl ZeroDivisionError else Inr (if 0 < m2 then NegInf else PosInf))"
| "float_div (Finite m1 e1) PosInf = Inr (Finite 0 0)"
| "float_div (Finite m1 e1) NegInf = Inr (Finite 0 0)"
| "float_div x y = Inr NaN"

text \<open>
  \<^verbatim>\<open>round(x)\<close> on a \<^verbatim>\<open>float\<close>: the nearest integer, ties to the even one;
  \<^verbatim>\<open>OverflowError\<close> on an infinity and \<^verbatim>\<open>ValueError\<close> on a NaN.
\<close>

fun py_round :: "double \<Rightarrow> py_error + int" where
  "py_round (Finite m e) =
     Inr (if 0 \<le> e then m * 2 ^ nat e else round_half_even m (2 ^ nat (- e)))"
| "py_round PosInf = Inl OverflowError"
| "py_round NegInf = Inl OverflowError"
| "py_round NaN = Inl ValueError"

text \<open>
  \<^verbatim>\<open>max(x, 1)\<close> on a \<^verbatim>\<open>float\<close> \<open>x\<close>: Python returns the \<^verbatim>\<open>int\<close> 1 when \<^verbatim>\<open>1 > x\<close> and
  \<open>x\<close> otherwise; the 1 becomes \<^verbatim>\<open>1.0\<close> in the division that follows.
\<close>

definition less_than_one :: "double \<Rightarrow> bool" where
  "less_than_one x =
     (case x of
        Finite m e \<Rightarrow> (if 0 \<le> e then m * 2 ^ nat e < 1 else m < 2 ^ nat (- e))
      | NegInf \<Rightarrow> True
      | _ \<Rightarrow> False)"

definition max_with_one :: "double \<Rightarrow> double" where
  "max_with_one x = (if less_than_one x then Finite 1 0 else x)"

subsection \<open>Statistics of the window\<close>

text \<open>\<^verbatim>\<open>int(round(q / d))\<close> for an \<^verbatim>\<open>int\<close> \<open>q\<close> and a \<^verbatim>\<open>float\<close> \<open>d\<close>.\<close>

definition rate :: "int \<Rightarrow> double \<Rightarrow> py_error + int" where
  "rate q d =
     (case int_to_float q of
        Inl e \<Rightarrow> Inl e
      | Inr x \<Rightarrow> (case float_div x d of Inl e \<Rightarrow> Inl e | Inr y \<Rightarrow> py_round y))"

text \<open>
  \<^verbatim>\<open>items_qty[k] += q\<close> on a \<^verbatim>\<open>defaultdict(int)\<close>. A Python dictionary keeps its keys in
  the order of their first insertion, so it is an association list: an existing key is
  updated in place, a new one goes to the end, starting from \<^verbatim>\<open>int() = 0\<close>.
\<close>

fun dict_add :: "string \<Rightarrow> int \<Rightarrow> (string \<times> int) list \<Rightarrow> (string \<times> int) list" where
  "dict_add k q [] = [(k, 0 + q)]"
| "dict_add k q ((k', v) # d) =
     (if k' = k then (k', v + q) # d else (k', v) # dict_add k q d)"

text \<open>\<^verbatim>\<open>for ev in events_list: if not ev.is_yang: items_qty[ev.item] += ev.quantity\<close>\<close>

fun collect_items :: "LootEvent list \<Rightarrow> (string \<times> int) list \<Rightarrow> (string \<times> int) list" where
  "collect_items [] items_qty = items_qty"
| "collect_items (ev # evs) items_qty =
     collect_items evs
       (if \<not> is_yang ev then dict_add (item ev) (quantity ev) items_qty else items_qty)"

text \<open>
  \<^verbatim>\<open>max((end - start).total_seconds(), 1)\<close>: the difference is a whole number \<open>n\<close> of
  seconds, and \<^verbatim>\<open>total_seconds\<close> divides its microseconds by \<^verbatim>\<open>10**6\<close>.
\<close>

definition total_seconds :: "int \<Rightarrow> py_error + double" where
  "total_seconds n = int_truediv (n * 1000000) 1000000"

definition elapsed_seconds :: "datetime \<Rightarrow> datetime \<Rightarrow> py_error + double" where
  "elapsed_seconds start_t end_t =
     (case total_seconds (datetime_secs end_t - datetime_secs start_t) of
        Inl e \<Rightarrow> Inl e
      | Inr x \<Rightarrow> Inr (max_with_one x))"

text \<open>
  \<^verbatim>\<open>for name, qty in items_qty.items(): items_list.append((name, qty, int(round(qty / hours))))\<close>
\<close>

fun build_items :: "double \<Rightarrow> (string \<times> int) list \<Rightarrow> py_error + (string \<times> int \<times> int) list" where
  "build_items h [] = Inr []"
| "build_items h ((name, qty) # d) =
     (case rate qty h of
        Inl e \<Rightarrow> Inl e
      | Inr per_hour \<Rightarrow>
          (case build_items h d of
             Inl e \<Rightarrow> Inl e
           | Inr items_list \<Rightarrow> Inr ((name, qty, per_hour) # items_list)))"

text \<open>
  \<^verbatim>\<open>items_list.sort(key=lambda x: x[1], reverse=True)\<close>: Python's sort is stable, also
  with \<^verbatim>\<open>reverse=True\<close>: descending keys, equal keys in their former order. That is the
  stable insertion sort of the library on the negated key.
\<close>

definition sort_by_qty_desc :: "(string \<times> int \<times> int) list \<Rightarrow> (string \<times> int \<times> int) list" where
  "sort_by_qty_desc items_list = sort_key (\<lambda>x. - fst (snd x)) items_list"

text \<open>The dictionary \<^verbatim>\<open>stats\<close>; the key \<^verbatim>\<open>end\<close> is the field \<open>end_time\<close>.\<close>

record stats =
  start_time :: datetime
  end_time :: datetime
  hours :: double
  minutes :: double
  total_yang :: int
  yang_per_hour :: int
  yang_per_minute :: int
  items :: "(string \<times> int \<times> int) list"

text \<open>
  The body of \<^verbatim>\<open>compute_stats_from_window\<close> as a function of the events in the window,
  each step in the order of the source, so that the first exception is the one raised.
\<close>

definition compute_stats :: "LootEvent list \<Rightarrow> py_error + stats option" where
  "compute_stats events_list =
     (if events_list = [] then Inr None
      else
        (let total = sum_list (map quantity (filter is_yang events_list));
             items_qty = collect_items events_list [];
             start_t = ts (hd events_list);
             end_t = ts (last events_list)
         in case elapsed_seconds start_t end_t of
              Inl e \<Rightarrow> Inl e
            | Inr elapsed \<Rightarrow>
         (case float_div elapsed (Finite 3600 0) of
              Inl e \<Rightarrow> Inl e
            | Inr h \<Rightarrow>
         (case float_div elapsed (Finite 60 0) of
              Inl e \<Rightarrow> Inl e
            | Inr m \<Rightarrow>
         (case build_items h items_qty of
              Inl e \<Rightarrow> Inl e
            | Inr items_list \<Rightarrow>
         (case rate total h of
              Inl e \<Rightarrow> Inl e
            | Inr per_hour \<Rightarrow>
         (case rate total m of
              Inl e \<Rightarrow> Inl e
            | Inr per_minute \<Rightarrow>
                Inr (Some \<lparr> start_time = start_t, end_time = end_t,
                            hours = h, minutes = m, total_yang = total,
                            yang_per_hour = per_hour, yang_per_minute = per_minute,
                            items = sort_by_qty_desc items_list \<rparr>))))))))"

text \<open>
  The method on the worker: it reads \<^verbatim>\<open>self.window\<close> through the copy
  \<^verbatim>\<open>list(self.window)\<close> and returns the worker as it found it.
\<close>

definition compute_stats_from_window :: "worker \<Rightarrow> (py_error + stats option) \<times> worker" where
  "compute_stats_from_window self = (compute_stats (window self), self)"

subsection \<open>The snapshot method on an object store\<close>

text \<open>
  \<^verbatim>\<open>compute_stats_from_window\<close> once more, statement by statement, with the objects it
  touches kept apart: the deque \<^verbatim>\<open>self.window\<close>, the copy \<^verbatim>\<open>events_list\<close>, the
  dictionary \<^verbatim>\<open>items_qty\<close> and the list \<^verbatim>\<open>items_list\<close> are mutable objects in a store,
  and a variable holds the address of its object. The store is the list of all objects, an
  address is a position in it, and a new object is put at the end. The \<open>window\<close> field of
  the worker record above is the content of the deque.
\<close>

datatype pyobj =
    Events "LootEvent list"
  | Dict "(string \<times> int) list"
  | Items "(string \<times> int \<times> int) list"

type_synonym store = "pyobj list"

type_synonym addr = nat

definition alloc :: "pyobj \<Rightarrow> store \<Rightarrow> addr \<times> store" where
  "alloc ob st = (length st, st @ [ob])"

definition get_events :: "store \<Rightarrow> addr \<Rightarrow> LootEvent list" where
  "get_events st a =
     (if a < length st then (case st ! a of Events evs \<Rightarrow> evs | _ \<Rightarrow> []) else [])"

definition get_dict :: "store \<Rightarrow> addr \<Rightarrow> (string \<times> int) list" where
  "get_dict st a =
     (if a < length st then (case st ! a of Dict d \<Rightarrow> d | _ \<Rightarrow> []) else [])"

definition get_items :: "store \<Rightarrow> addr \<Rightarrow> (string \<times> int \<times> int) list" where
  "get_items st a =
     (if a < length st then (case st ! a of Items l \<Rightarrow> l | _ \<Rightarrow> []) else [])"

text \<open>
  \<^verbatim>\<open>for ev in events_list: if not ev.is_yang: items_qty[ev.item] += ev.quantity\<close>, where
  \<open>a\<close> is the address of \<^verbatim>\<open>items_qty\<close>; the body writes to no other object.
\<close>

fun fill_items_qty :: "addr \<Rightarrow> LootEvent list \<Rightarrow> store \<Rightarrow> store" where
  "fill_items_qty a [] st = st"
| "fill_items_qty a (ev # evs) st =
     fill_items_qty a evs
       (if \<not> is_yang ev
        then st[a := Dict (dict_add (item ev) (quantity ev) (get_dict st a))]
        else st)"

text \<open>
  \<^verbatim>\<open>for name, qty in items_qty.items(): items_list.append((name, qty, int(round(qty / hours))))\<close>,
  where \<open>a\<close> is the address of \<^verbatim>\<open>items_list\<close>; an exception leaves the list as far as it
  was built.
\<close>

fun append_items :: "double \<Rightarrow> addr \<Rightarrow> (string \<times> int) list \<Rightarrow> store \<Rightarrow> py_error option \<times> store" where
  "append_items h a [] st = (None, st)"
| "append_items h a ((name, qty) # d) st =
     (case rate qty h of
        Inl e \<Rightarrow> (Some e, st)
      | Inr per_hour \<Rightarrow>
          append_items h a d (st[a := Items (get_items st a @ [(name, qty, per_hour)])]))"

text \<open>
  The method, with \<open>w\<close> the address of \<^verbatim>\<open>self.window\<close>. It returns the store it leaves
  behind and, for a snapshot, the address of \<^verbatim>\<open>items_list\<close> (which the dictionary
  \<^verbatim>\<open>stats\<close> refers to) together with the dictionary as it reads at the return.
\<close>

definition compute_stats_from_window_store ::
    "addr \<Rightarrow> store \<Rightarrow> (py_error + (addr \<times> stats) option) \<times> store" where
  "compute_stats_from_window_store w st =
     (if get_events st w = [] then (Inr None, st)
      else
        (let (a_events, st1) = alloc (Events (get_events st w)) st;
             events_list = get_events st1 a_events;
             total = sum_list (map quantity (filter is_yang events_list));
             (a_qty, st2) = alloc (Dict []) st1;
             st3 = fill_items_qty a_qty events_list st2;
             start_t = ts (hd events_list);
             end_t = ts (last events_list)
         in case elapsed_seconds start_t end_t of
              Inl e \<Rightarrow> (Inl e, st3)
            | Inr elapsed \<Rightarrow>
         (case float_div elapsed (Finite 3600 0) of
              Inl e \<Rightarrow> (Inl e, st3)
            | Inr h \<Rightarrow>
         (case float_div elapsed (Finite 60 0) of
              Inl e \<Rightarrow> (Inl e, st3)
            | Inr m \<Rightarrow>
         (let (a_items, st4) = alloc (Items []) st3
          in case append_items h a_items (get_dict st4 a_qty) st4 of
               (Some e, st5) \<Rightarrow> (Inl e, st5)
             | (None, st5) \<Rightarrow>
         (let st6 = st5[a_items := Items (sort_by_qty_desc (get_items st5 a_items))]
          in case rate total h of
               Inl e \<Rightarrow> (Inl e, st6)
             | Inr per_hour \<Rightarrow>
         (case rate total m of
               Inl e \<Rightarrow> (Inl e, st6)
             | Inr per_minute \<Rightarrow>
                 (Inr (Some (a_items,
                    \<lparr> start_time = start_t, end_time = end_t,
                      hours = h, minutes = m, total_yang = total,
                      yang_per_hour = per_hour, yang_per_minute = per_minute,
                      items = get_items st6 a_items \<rparr>)), st6))))))))"

text \<open>The result without the address: an exception, no snapshot, or the snapshot.\<close>

definition snapshot_value :: "py_error + (addr \<times> stats) option \<Rightarrow> py_error + stats option" where
  "snapshot_value r = map_sum id (map_option snd) r"

subsection \<open>The polling loop\<close>

text \<open>
  What \<^verbatim>\<open>update_callback\<close> receives: a statistics dictionary, or the dictionary with the
  key \<^verbatim>\<open>error\<close> after a failed \<^verbatim>\<open>open\<close>.
\<close>

datatype callback_arg = Stats stats | Open_error

text \<open>
  One \<^verbatim>\<open>f.readline()\<close>: a string (empty at the end of the file), or an \<^verbatim>\<open>OSError\<close>
  raised by the read.
\<close>

datatype readline_result = Line string | Read_raises

record loop_state =
  self :: worker
  last_print :: rat
  delivered :: "callback_arg list"

text \<open>
  The first half of the loop body: \<^verbatim>\<open>line = f.readline()\<close>, then either
  \<^verbatim>\<open>time.sleep(0.2)\<close> or \<^verbatim>\<open>parse_log_line\<close> and \<^verbatim>\<open>add_event\<close>. No statement of
  \<^verbatim>\<open>run\<close> catches an exception raised inside the loop.
\<close>

definition read_and_add :: "nat \<Rightarrow> worker \<Rightarrow> readline_result \<Rightarrow> worker \<times> py_error option" where
  "read_and_add max_str_digits w rd =
     (case rd of
        Read_raises \<Rightarrow> (w, Some OSError)
      | Line line \<Rightarrow>
          if line = [] then (w, None)
          else (case parse_log_line max_str_digits line of
                  Inl e \<Rightarrow> (w, Some e)
                | Inr None \<Rightarrow> (w, None)
                | Inr (Some ev) \<Rightarrow> add_event w ev))"

text \<open>
  One iteration of \<^verbatim>\<open>while not self.stop_event.is_set()\<close>, given what \<^verbatim>\<open>readline\<close>
  and \<^verbatim>\<open>time.time()\<close> answer in it. The result carries the exception that ends the
  thread, if one is raised.
\<close>

definition run_step :: "nat \<Rightarrow> loop_state \<Rightarrow> readline_result \<times> rat \<Rightarrow> loop_state \<times> py_error option" where
  "run_step max_str_digits st inp =
     (case inp of (rd, now_ts) \<Rightarrow>
        (case read_and_add max_str_digits (self st) rd of
           (w, Some e) \<Rightarrow> (st\<lparr>self := w\<rparr>, Some e)
         | (w, None) \<Rightarrow>
             if of_int (refresh_secs w) \<le> now_ts - last_print st
             then (case fst (compute_stats_from_window w) of
                     Inl e \<Rightarrow> (st\<lparr>self := w, last_print := now_ts\<rparr>, Some e)
                   | Inr None \<Rightarrow> (st\<lparr>self := w, last_print := now_ts\<rparr>, None)
                   | Inr (Some s) \<Rightarrow>
                       (st\<lparr>self := w, last_print := now_ts,
                           delivered := delivered st @ [Stats s]\<rparr>, None))
             else (st\<lparr>self := w\<rparr>, None)))"

text \<open>
  The loop over the iterations that happen before \<^verbatim>\<open>stop_event\<close> is set; an exception
  ends it at once.
\<close>

fun run_loop :: "nat \<Rightarrow> loop_state \<Rightarrow> (readline_result \<times> rat) list \<Rightarrow> loop_state \<times> py_error option" where
  "run_loop max_str_digits st [] = (st, None)"
| "run_loop max_str_digits st (inp # inps) =
     (case run_step max_str_digits st inp of
        (st1, Some e) \<Rightarrow> (st1, Some e)
      | (st1, None) \<Rightarrow> run_loop max_str_digits st1 inps)"

text \<open>
  \<^verbatim>\<open>run\<close>: \<open>opened\<close> says whether \<^verbatim>\<open>open\<close> succeeded, \<open>t0\<close> is the first
  \<^verbatim>\<open>time.time()\<close>. A failed open is reported through the callback and the method returns.
\<close>

definition run :: "nat \<Rightarrow> worker \<Rightarrow> bool \<Rightarrow> rat \<Rightarrow> (readline_result \<times> rat) list \<Rightarrow> loop_state \<times> py_error option" where
  "run max_str_digits w opened t0 inps =
     (if \<not> opened then (\<lparr> self = w, last_print = t0, delivered = [Open_error] \<rparr>, None)
      else run_loop max_str_digits \<lparr> self = w, last_print = t0, delivered = [] \<rparr> inps)"

subsection \<open>Auxiliary notions for the properties\<close>

text \<open>The cutoff of an append is a date the \<^verbatim>\<open>datetime\<close> type can hold.\<close>

definition cutoff_in_range :: "int \<Rightarrow> LootEvent \<Rightarrow> bool" where
  "cutoff_in_range wm ev = (0 \<le> ev_secs ev - 60 * wm \<and> ev_secs ev - 60 * wm \<le> max_secs)"

text \<open>Sample data: a time of day on 24 November 2025, and an event at such a time.\<close>

definition clock :: "nat \<Rightarrow> nat \<Rightarrow> nat \<Rightarrow> datetime" where
  "clock h m s = \<lparr> year = 2025, month = 11, day = 24, hour = h, minute = m, second = s \<rparr>"

definition loot :: "datetime \<Rightarrow> int \<Rightarrow> string \<Rightarrow> LootEvent" where
  "loot t q name = \<lparr> ts = t, quantity = q, item = name \<rparr>"

definition new_worker :: "int \<Rightarrow> int \<Rightarrow> worker" where
  "new_worker wm rs = \<lparr> window_minutes = wm, refresh_secs = rs, window = [] \<rparr>"





text \<open>
  A positive double in the form the rounding returns, with its exponent between two bounds.
\<close>

definition normal_double :: "int \<Rightarrow> int \<Rightarrow> double \<Rightarrow> bool" where
  "normal_double lo hi x =
     (case x of Finite m ex \<Rightarrow> 2 ^ 52 \<le> m \<and> m < 2 ^ 53 \<and> lo \<le> ex \<and> ex \<le> hi | _ \<Rightarrow> False)"

text \<open>The position in the window of the first event with a given item name.\<close>

definition first_seen :: "string \<Rightarrow> LootEvent list \<Rightarrow> nat" where
  "first_seen name events = length (takeWhile (\<lambda>e. item e \<noteq> name) events)"

text \<open>
  The order of the item entries: larger quantity first, and among equal quantities the name
  that appeared first in the window.
\<close>

definition ranks_before :: "LootEvent list \<Rightarrow> string \<times> int \<times> int \<Rightarrow> string \<times> int \<times> int \<Rightarrow> bool" where
  "ranks_before events a b =
     (fst (snd b) < fst (snd a)
      \<or> (fst (snd a) = fst (snd b) \<and> first_seen (fst a) events < first_seen (fst b) events))"

section \<open>Properties of the sliding window\<close>

lemma popleft_while_dropWhile:
  "popleft_while c xs = dropWhile (\<lambda>x. ev_secs x < c) xs"
  by (induction xs) simp_all

lemma add_event_in_range:
  "cutoff_in_range (window_minutes w) ev \<Longrightarrow>
     add_event w ev =
       (w\<lparr>window := dropWhile (\<lambda>x. ev_secs x < ev_secs ev - 60 * window_minutes w) (window w @ [ev])\<rparr>, None)"
  by (simp add: add_event_def minus_minutes_def cutoff_in_range_def popleft_while_dropWhile)

lemma popleft_while_keeps_last:
  "\<not> ev_secs ev < c \<Longrightarrow>
     popleft_while c (w @ [ev]) \<noteq> [] \<and> last (popleft_while c (w @ [ev])) = ev"
  by (induction w) simp_all

lemma add_events_snoc:
  "add_events w (xs @ [e]) =
     (case add_events w xs of
        (w1, Some err) \<Rightarrow> (w1, Some err)
      | (w1, None) \<Rightarrow> add_event w1 e)"
  by (induction xs arbitrary: w) (auto split: prod.splits option.splits)

lemma sorted_dropWhile_ge:
  "sorted (map ev_secs xs) \<Longrightarrow> \<forall>e\<in>set (dropWhile (\<lambda>x. ev_secs x < c) xs). c \<le> ev_secs e"
  by (induction xs) auto

lemma takeWhile_lt: "\<forall>e\<in>set (takeWhile (\<lambda>x. ev_secs x < c) xs). ev_secs e < c"
  by (auto dest: set_takeWhileD)

lemma window_step:
  assumes rng: "cutoff_in_range wm e"
    and wm: "window_minutes w = wm"
    and srt: "sorted (map ev_secs (w0 @ [e]))"
    and old: "\<forall>x\<in>set ev0. ev_secs x < ev_secs e - 60 * wm"
    and run: "add_events w evs = (w\<lparr>window := w0\<rparr>, None)"
    and split: "evs = ev0 @ w0"
  shows "\<exists>evicted retained. add_events w (evs @ [e]) = (w\<lparr>window := retained\<rparr>, None)
        \<and> evs @ [e] = evicted @ retained
        \<and> (\<forall>x\<in>set retained. ev_secs e - 60 * wm \<le> ev_secs x)
        \<and> (\<forall>x\<in>set evicted. ev_secs x < ev_secs e - 60 * wm)"
proof -
  let ?c = "ev_secs e - 60 * wm"
  let ?P = "\<lambda>x. ev_secs x < ?c"
  let ?t = "takeWhile ?P (w0 @ [e])"
  let ?d = "dropWhile ?P (w0 @ [e])"
  have rng': "cutoff_in_range (window_minutes (w\<lparr>window := w0\<rparr>)) e"
    using rng wm by simp
  have a: "add_events w (evs @ [e]) = (w\<lparr>window := ?d\<rparr>, None)"
    using run add_event_in_range [OF rng'] wm by (simp add: add_events_snoc)
  have b: "evs @ [e] = (ev0 @ ?t) @ ?d"
    using split by simp
  have c: "\<forall>x\<in>set ?d. ?c \<le> ev_secs x"
    using srt by (rule sorted_dropWhile_ge)
  have t: "\<forall>x\<in>set ?t. ev_secs x < ?c"
    by (rule takeWhile_lt)
  have d: "\<forall>x\<in>set (ev0 @ ?t). ev_secs x < ?c"
  proof
    fix x assume "x \<in> set (ev0 @ ?t)"
    then have "x \<in> set ev0 \<or> x \<in> set ?t" by simp
    then show "ev_secs x < ?c"
    proof
      assume "x \<in> set ev0" with old show ?thesis by (rule bspec)
    next
      assume "x \<in> set ?t" with t show ?thesis by (rule bspec)
    qed
  qed
  show ?thesis
    apply (rule exI [where x = "ev0 @ ?t"])
    apply (rule exI [where x = ?d])
    apply (intro conjI)
       apply (rule a)
      apply (rule b)
     apply (rule c)
    apply (rule d)
    done
qed

lemma window_after_appends:
  "sorted (map ev_secs evs) \<Longrightarrow> evs \<noteq> [] \<Longrightarrow> \<forall>e\<in>set evs. cutoff_in_range wm e \<Longrightarrow>
   window w = [] \<Longrightarrow> window_minutes w = wm \<Longrightarrow>
     \<exists>evicted retained. add_events w evs = (w\<lparr>window := retained\<rparr>, None)
        \<and> evs = evicted @ retained
        \<and> (\<forall>e\<in>set retained. ev_secs (last evs) - 60 * wm \<le> ev_secs e)
        \<and> (\<forall>e\<in>set evicted. ev_secs e < ev_secs (last evs) - 60 * wm)"
proof (induction evs rule: rev_induct)
  case Nil
  then show ?case by simp
next
  case (snoc e evs)
  have rng: "cutoff_in_range wm e" using snoc.prems(3) by simp
  have srt: "sorted (map ev_secs evs)" and le: "\<forall>x\<in>set evs. ev_secs x \<le> ev_secs e"
    using snoc.prems(1) by (auto simp: sorted_append)
  have rest: "\<forall>x\<in>set evs. cutoff_in_range wm x" using snoc.prems(3) by simp
  note wm = snoc.prems(5)
  show ?case
  proof (cases "evs = []")
    case True
    have w: "w\<lparr>window := []\<rparr> = w" using snoc.prems(4) by simp
    have "\<exists>evicted retained. add_events w ([] @ [e]) = (w\<lparr>window := retained\<rparr>, None)
        \<and> [] @ [e] = evicted @ retained
        \<and> (\<forall>x\<in>set retained. ev_secs e - 60 * wm \<le> ev_secs x)
        \<and> (\<forall>x\<in>set evicted. ev_secs x < ev_secs e - 60 * wm)"
      by (rule window_step [OF rng wm, where ?w0.0 = "[]" and ?ev0.0 = "[]"]) (simp_all add: w)
    then show ?thesis using True by simp
  next
    case False
    from snoc.IH [OF srt False rest snoc.prems(4) wm]
    obtain ev0 w0 where run: "add_events w evs = (w\<lparr>window := w0\<rparr>, None)" and split: "evs = ev0 @ w0"
      and old: "\<forall>x\<in>set ev0. ev_secs x < ev_secs (last evs) - 60 * wm"
      by (elim exE conjE)
    have lastle: "ev_secs (last evs) \<le> ev_secs e" using le False by simp
    have old': "\<forall>x\<in>set ev0. ev_secs x < ev_secs e - 60 * wm"
    proof
      fix x assume "x \<in> set ev0"
      with old have "ev_secs x < ev_secs (last evs) - 60 * wm" by (rule bspec)
      with lastle show "ev_secs x < ev_secs e - 60 * wm" by linarith
    qed
    have srt': "sorted (map ev_secs (w0 @ [e]))"
      using snoc.prems(1) split by (simp add: sorted_append)
    show ?thesis
      using window_step [OF rng wm srt' old' run split] by simp
  qed
qed

text \<open>
  C1. After any sequence of \<^verbatim>\<open>add_event\<close> calls with non-decreasing timestamps on a
  window that starts empty, the window holds a suffix of the appended events: every retained
  event is at or after the latest timestamp minus the window length, and every evicted event
  is before that bound. One call appends at the tail and then drops from the head exactly
  while the head is before the new event's timestamp minus the window length. (The cutoffs
  are taken to be dates that exist, so that no call raises.)
\<close>

theorem window_invariant_exact:
  assumes "sorted (map ev_secs evs)" and "evs \<noteq> []"
    and "\<forall>e\<in>set evs. cutoff_in_range wm e"
    and "window w = []" and "window_minutes w = wm"
  shows "(\<exists>evicted retained.
            add_events w evs = (w\<lparr>window := retained\<rparr>, None)
          \<and> evs = evicted @ retained
          \<and> (\<forall>e\<in>set retained. ev_secs (last evs) - 60 * wm \<le> ev_secs e)
          \<and> (\<forall>e\<in>set evicted. \<not> ev_secs (last evs) - 60 * wm \<le> ev_secs e))
       \<and> (\<forall>w' e. window_minutes w' = wm \<and> cutoff_in_range wm e \<longrightarrow>
            add_event w' e =
              (w'\<lparr>window := dropWhile (\<lambda>x. ev_secs x < ev_secs e - 60 * wm) (window w' @ [e])\<rparr>,
               None))"
proof (rule conjI)
  from window_after_appends [OF assms]
  obtain evicted retained where a: "add_events w evs = (w\<lparr>window := retained\<rparr>, None)"
    and b: "evs = evicted @ retained"
    and c: "\<forall>e\<in>set retained. ev_secs (last evs) - 60 * wm \<le> ev_secs e"
    and d: "\<forall>e\<in>set evicted. ev_secs e < ev_secs (last evs) - 60 * wm"
    by (elim exE conjE)
  have d': "\<forall>e\<in>set evicted. \<not> ev_secs (last evs) - 60 * wm \<le> ev_secs e"
  proof
    fix e assume "e \<in> set evicted"
    with d have "ev_secs e < ev_secs (last evs) - 60 * wm" by (rule bspec)
    then show "\<not> ev_secs (last evs) - 60 * wm \<le> ev_secs e" by linarith
  qed
  show "\<exists>evicted retained.
            add_events w evs = (w\<lparr>window := retained\<rparr>, None)
          \<and> evs = evicted @ retained
          \<and> (\<forall>e\<in>set retained. ev_secs (last evs) - 60 * wm \<le> ev_secs e)
          \<and> (\<forall>e\<in>set evicted. \<not> ev_secs (last evs) - 60 * wm \<le> ev_secs e)"
    apply (rule exI [where x = evicted])
    apply (rule exI [where x = retained])
    apply (intro conjI)
       apply (rule a)
      apply (rule b)
     apply (rule c)
    apply (rule d')
    done
next
  show "\<forall>w' e. window_minutes w' = wm \<and> cutoff_in_range wm e \<longrightarrow>
            add_event w' e =
              (w'\<lparr>window := dropWhile (\<lambda>x. ev_secs x < ev_secs e - 60 * wm) (window w' @ [e])\<rparr>,
               None)"
    using add_event_in_range by blast
qed

text \<open>
  C10. With a window length that is not negative, a call of \<^verbatim>\<open>add_event\<close> leaves the
  window non-empty with the new event as its last element: the cutoff never excludes the
  event that was just appended. This holds also when the call raises.
\<close>

theorem append_keeps_event:
  "0 \<le> window_minutes w \<Longrightarrow>
     window (fst (add_event w ev)) \<noteq> [] \<and> last (window (fst (add_event w ev))) = ev
       \<and> \<not> ev_secs ev < ev_secs ev - 60 * window_minutes w"
  using popleft_while_keeps_last [of ev "ev_secs ev - 60 * window_minutes w" "window w"]
  by (simp add: add_event_def minus_minutes_def Let_def)

lemma clock_secs:
  "datetime_secs (clock h m s) = 63899539200 + int h * 3600 + int m * 60 + int s"
  by (simp add: clock_def datetime_secs_def ymd2ord_def days_before_year_def
      days_before_month_def is_leap_def)

lemma loot_secs: "ev_secs (loot t q name) = datetime_secs t"
  by (simp add: loot_def)

theorem window_invariant_exact_witness:
  "sorted (map ev_secs [loot (clock 10 0 0) 5 ''Yang'', loot (clock 10 6 0) 7 ''Yang''])
   \<and> cutoff_in_range 5 (loot (clock 10 0 0) 5 ''Yang'')
   \<and> cutoff_in_range 5 (loot (clock 10 6 0) 7 ''Yang'')
   \<and> add_events (new_worker 5 1) [loot (clock 10 0 0) 5 ''Yang'', loot (clock 10 6 0) 7 ''Yang'']
       = ((new_worker 5 1)\<lparr>window := [loot (clock 10 6 0) 7 ''Yang'']\<rparr>, None)
   \<and> (\<exists>evicted retained.
          add_events (new_worker 5 1) [loot (clock 10 0 0) 5 ''Yang'', loot (clock 10 6 0) 7 ''Yang'']
            = ((new_worker 5 1)\<lparr>window := retained\<rparr>, None)
        \<and> [loot (clock 10 0 0) 5 ''Yang'', loot (clock 10 6 0) 7 ''Yang''] = evicted @ retained
        \<and> (\<forall>e\<in>set retained. ev_secs (loot (clock 10 6 0) 7 ''Yang'') - 60 * 5 \<le> ev_secs e)
        \<and> (\<forall>e\<in>set evicted. \<not> ev_secs (loot (clock 10 6 0) 7 ''Yang'') - 60 * 5 \<le> ev_secs e))"
proof -
  let ?evs = "[loot (clock 10 0 0) 5 ''Yang'', loot (clock 10 6 0) 7 ''Yang'']"
  have h1: "sorted (map ev_secs ?evs)"
    by (simp add: loot_secs clock_secs)
  have h2: "?evs \<noteq> []" by simp
  have h3a: "cutoff_in_range 5 (loot (clock 10 0 0) 5 ''Yang'')"
    and h3b: "cutoff_in_range 5 (loot (clock 10 6 0) 7 ''Yang'')"
    by (simp_all add: cutoff_in_range_def loot_secs clock_secs max_secs_def)
  have h3: "\<forall>e\<in>set ?evs. cutoff_in_range 5 e"
    using h3a h3b by simp
  have h4: "window (new_worker 5 1) = []" and h5: "window_minutes (new_worker 5 1) = 5"
    by (simp_all add: new_worker_def)
  have run: "add_events (new_worker 5 1) ?evs
       = ((new_worker 5 1)\<lparr>window := [loot (clock 10 6 0) 7 ''Yang'']\<rparr>, None)"
    by (simp add: add_event_def minus_minutes_def loot_secs clock_secs max_secs_def new_worker_def)
  have c: "\<exists>evicted retained.
          add_events (new_worker 5 1) ?evs = ((new_worker 5 1)\<lparr>window := retained\<rparr>, None)
        \<and> ?evs = evicted @ retained
        \<and> (\<forall>e\<in>set retained. ev_secs (last ?evs) - 60 * 5 \<le> ev_secs e)
        \<and> (\<forall>e\<in>set evicted. \<not> ev_secs (last ?evs) - 60 * 5 \<le> ev_secs e)"
    by (rule window_invariant_exact [OF h1 h2 h3 h4 h5, THEN conjunct1])
  have l: "last ?evs = loot (clock 10 6 0) 7 ''Yang''" by simp
  show ?thesis
    apply (intro conjI)
        apply (rule h1)
       apply (rule h3a)
      apply (rule h3b)
     apply (rule run)
    apply (rule c [unfolded l])
    done
qed

theorem append_keeps_event_witness:
  "0 \<le> window_minutes (new_worker 0 1)
   \<and> window (fst (add_event (new_worker 0 1) (loot (clock 10 0 0) 5 ''Yang''))) \<noteq> []
   \<and> last (window (fst (add_event (new_worker 0 1) (loot (clock 10 0 0) 5 ''Yang''))))
       = loot (clock 10 0 0) 5 ''Yang''"
proof -
  have h: "0 \<le> window_minutes (new_worker 0 1)" by (simp add: new_worker_def)
  from append_keeps_event [OF h, of "loot (clock 10 0 0) 5 ''Yang''"] h
  show ?thesis by blast
qed

section \<open>Properties of the line parser\<close>

lemmas parser_defs =
  parse_log_line_def match_here_def header_toks_def date_toks_def time_toks_def is_digit_def
  newline_def parse_datetime_from_log_def dec_def digit_val_def full_year_def
  valid_datetime_def days_in_month_def is_leap_def py_int_def Let_def

lemma parse_sample_line:
  "parse_log_line 4300 ''[24/11/25] [10:00:00]: You receive 5 Yang.''
     = Inr (Some (loot (clock 10 0 0) 5 ''Yang''))"
  by (simp add: parser_defs loot_def clock_def)


lemma is_digit_not_space: "is_digit c \<Longrightarrow> c \<noteq> CHR '' ''"
  by (auto simp: is_digit_def)


























text \<open>
  C3 fails on the code. A line whose digits pass the regular expression but are no date:
  the expression matches, \<^verbatim>\<open>strptime\<close> raises, and \<^verbatim>\<open>parse_log_line\<close> lets the
  \<^verbatim>\<open>ValueError\<close> through instead of returning no event.
\<close>

theorem invalid_date_raises:
  "search ''[31/02/25] [10:00:00]: You receive 5 Yang.''
     = Some (''31/02/25'', ''10:00:00'', ''5'', ''Yang'')
   \<and> parse_datetime_from_log ''31/02/25'' ''10:00:00'' = Inl ValueError
   \<and> parse_log_line 4300 ''[31/02/25] [10:00:00]: You receive 5 Yang.'' = Inl ValueError
   \<and> run_step 4300 st (Line ''[31/02/25] [10:00:00]: You receive 5 Yang.'', now_ts)
       = (st, Some ValueError)"
proof -
  have p: "parse_log_line 4300 ''[31/02/25] [10:00:00]: You receive 5 Yang.'' = Inl ValueError"
    by (simp add: parser_defs)
  show ?thesis
    by (simp add: p run_step_def read_and_add_def) (simp add: parser_defs)
qed

section \<open>Properties of the floating-point operations\<close>

lemma bit_length_pos: "0 < n \<Longrightarrow> bit_length n = Suc (bit_length (n div 2))"
  by (subst bit_length.simps) simp

lemma bit_length_nonpos: "n \<le> 0 \<Longrightarrow> bit_length n = 0"
  by (subst bit_length.simps) simp

lemma bit_length_bounds:
  "0 < n \<Longrightarrow> 2 ^ (bit_length n - 1) \<le> n \<and> n < 2 ^ bit_length n"
proof (induction n rule: bit_length.induct)
  case (1 n)
  show ?case
  proof (cases "n div 2 \<le> 0")
    case True
    with "1.prems" have "n = 1" by linarith
    then show ?thesis by (simp add: bit_length_pos bit_length_nonpos)
  next
    case False
    then have pos: "0 < n div 2" by simp
    have ih: "2 ^ (bit_length (n div 2) - 1) \<le> n div 2 \<and> n div 2 < 2 ^ bit_length (n div 2)"
      using "1.IH" "1.prems" pos by simp
    obtain b where b: "bit_length (n div 2) = Suc b"
      using bit_length_pos [OF pos] by simp
    have bl: "bit_length n = Suc (Suc b)"
      using bit_length_pos [OF "1.prems"] b by simp
    from ih b have lo: "(2::int) ^ b \<le> n div 2" and hi: "n div 2 < 2 * 2 ^ b" by simp_all
    have "2 * (n div 2) \<le> n" and "n < 2 * (n div 2) + 2" by linarith+
    with lo hi show ?thesis by (simp add: bl)
  qed
qed

lemma ratio_ge_pow2_iff:
  assumes "0 < q"
  shows "ratio_ge_pow2 p q d \<longleftrightarrow> (2::rat) powi d \<le> of_int p / of_int q"
proof (cases "0 \<le> d")
  case True
  have "(of_int q * 2 ^ nat d \<le> (of_int p :: rat)) = (q * 2 ^ nat d \<le> p)"
    by (metis of_int_le_iff of_int_mult of_int_numeral of_int_power)
  then show ?thesis
    using True assms by (simp add: ratio_ge_pow2_def power_int_def pos_le_divide_eq mult.commute)
next
  case False
  have "((of_int q :: rat) \<le> of_int p * 2 ^ nat (- d)) = (q \<le> p * 2 ^ nat (- d))"
    by (metis of_int_le_iff of_int_mult of_int_numeral of_int_power)
  then show ?thesis
    using False assms
    by (simp add: ratio_ge_pow2_def power_int_def pos_le_divide_eq power_inverse field_simps)
qed

lemma floor_log2_bounds:
  assumes p: "0 < p" and q: "0 < q"
  shows "(2::rat) powi floor_log2 p q \<le> of_int p / of_int q
       \<and> (of_int p :: rat) / of_int q < 2 powi (floor_log2 p q + 1)"
proof -
  define P :: rat where "P = of_int p"
  define Q :: rat where "Q = of_int q"
  define A :: rat where "A = 2 ^ bit_length p"
  define B :: rat where "B = 2 ^ bit_length q"
  define d where "d = int (bit_length p) - int (bit_length q)"
  have pos: "0 < P" "0 < Q" "0 < A" "0 < B" using p q by (simp_all add: P_def Q_def A_def B_def)
  obtain bp where bp: "bit_length p = Suc bp" using bit_length_pos [OF p] by simp
  obtain bq where bq: "bit_length q = Suc bq" using bit_length_pos [OF q] by simp
  from bit_length_bounds [OF p] have "(2::int) ^ bp \<le> p" "p < 2 ^ Suc bp" by (simp_all add: bp)
  then have "(of_int (2 ^ bp) :: rat) \<le> of_int p" "(of_int p :: rat) < of_int (2 ^ Suc bp)"
    by (simp_all only: of_int_le_iff of_int_less_iff)
  then have P: "A \<le> 2 * P" "P < A" by (simp_all add: A_def P_def bp)
  from bit_length_bounds [OF q] have "(2::int) ^ bq \<le> q" "q < 2 ^ Suc bq" by (simp_all add: bq)
  then have "(of_int (2 ^ bq) :: rat) \<le> of_int q" "(of_int q :: rat) < of_int (2 ^ Suc bq)"
    by (simp_all only: of_int_le_iff of_int_less_iff)
  then have Q: "B \<le> 2 * Q" "Q < B" by (simp_all add: B_def Q_def bq)
  have dd: "(2::rat) powi d = A / B"
    unfolding d_def A_def B_def by (simp add: power_int_diff)
  have d1: "(2::rat) powi (d + 1) = 2 * A / B"
    using dd by (simp add: power_int_add)
  have d2: "(2::rat) powi (d - 1) = A / (2 * B)"
    using dd by (simp add: power_int_diff)
  have "P * B < A * (2 * Q)"
  proof -
    have "P * B \<le> P * (2 * Q)" using Q(1) pos by simp
    also have "\<dots> < A * (2 * Q)" using P(2) pos by simp
    finally show ?thesis .
  qed
  then have up: "P / Q < 2 powi (d + 1)"
    unfolding d1 using pos by (simp add: field_simps)
  have "A * Q < 2 * P * B"
  proof -
    have "A * Q < A * B" using Q(2) pos by simp
    also have "\<dots> \<le> 2 * P * B" using P(1) pos by simp
    finally show ?thesis .
  qed
  then have lo: "2 powi (d - 1) < P / Q"
    unfolding d2 using pos by (simp add: field_simps)
  show ?thesis
  proof (cases "ratio_ge_pow2 p q d")
    case True
    then have "floor_log2 p q = d" by (simp add: floor_log2_def d_def Let_def)
    moreover have "2 powi d \<le> P / Q"
      using True ratio_ge_pow2_iff [OF q, of p d] by (simp add: P_def Q_def)
    ultimately show ?thesis using up by (simp add: P_def Q_def)
  next
    case False
    then have "floor_log2 p q = d - 1" by (simp add: floor_log2_def d_def Let_def)
    moreover have "P / Q < 2 powi d"
      using False ratio_ge_pow2_iff [OF q, of p d] by (simp add: P_def Q_def)
    ultimately show ?thesis using lo by (simp add: P_def Q_def)
  qed
qed

lemma powi2_less_imp: "(2::rat) powi a < 2 powi c \<Longrightarrow> a < c"
proof (rule ccontr)
  assume lt: "(2::rat) powi a < 2 powi c" and "\<not> a < c"
  then have "c \<le> a" by simp
  then have "(2::rat) powi c \<le> 2 powi a" by (rule power_int_increasing) simp
  with lt show False by simp
qed

lemma floor_log2_between:
  assumes "0 < p" and "0 < q"
    and "(2::rat) powi a \<le> of_int p / of_int q" and "(of_int p :: rat) / of_int q < 2 powi b"
  shows "a \<le> floor_log2 p q \<and> floor_log2 p q < b"
proof -
  from floor_log2_bounds [OF assms(1,2)]
  have lo: "(2::rat) powi floor_log2 p q \<le> of_int p / of_int q"
    and hi: "(of_int p :: rat) / of_int q < 2 powi (floor_log2 p q + 1)" by simp_all
  from assms(3) hi have "(2::rat) powi a < 2 powi (floor_log2 p q + 1)" by (rule le_less_trans)
  then have "a < floor_log2 p q + 1" by (rule powi2_less_imp)
  moreover from lo assms(4) have "(2::rat) powi floor_log2 p q < 2 powi b" by (rule le_less_trans)
  then have "floor_log2 p q < b" by (rule powi2_less_imp)
  ultimately show ?thesis by simp
qed

lemma round_half_even_between:
  "0 < d \<Longrightarrow> n div d \<le> round_half_even n d \<and> round_half_even n d \<le> n div d + 1"
  by (simp add: round_half_even_def Let_def)

lemma round_half_even_exact: "0 < d \<Longrightarrow> n mod d = 0 \<Longrightarrow> round_half_even n d = n div d"
  by (simp add: round_half_even_def Let_def)

lemma round_half_even_ge:
  assumes "0 < d" and "a * d \<le> n"
  shows "a \<le> round_half_even n d"
proof -
  have "a = a * d div d" using assms(1) by simp
  also have "\<dots> \<le> n div d" using assms by (intro zdiv_mono1) simp_all
  finally show ?thesis using round_half_even_between [OF assms(1), of n] by simp
qed

lemma round_half_even_le:
  assumes "0 < d" and "n \<le> b * d"
  shows "round_half_even n d \<le> b"
proof (cases "n = b * d")
  case True
  then show ?thesis using assms(1) by (simp add: round_half_even_exact)
next
  case False
  with assms(2) have lt: "n < b * d" by simp
  have "n div d < b"
  proof (rule ccontr)
    assume "\<not> n div d < b"
    then have "b \<le> n div d" by simp
    then have "b * d \<le> (n div d) * d" using assms(1) by simp
    also have "\<dots> \<le> n"
    proof -
      have "n = (n div d) * d + n mod d" by simp
      moreover have "0 \<le> n mod d" using assms(1) by simp
      ultimately show ?thesis by linarith
    qed
    finally show False using lt by simp
  qed
  then show ?thesis using round_half_even_between [OF assms(1), of n] by simp
qed


lemma of_int_mult_le_iff:
  "0 < d \<Longrightarrow> (of_int a :: rat) \<le> of_int n / of_int d \<longleftrightarrow> a * d \<le> n"
proof -
  assume d: "0 < d"
  have "(of_int a :: rat) \<le> of_int n / of_int d \<longleftrightarrow> (of_int a :: rat) * of_int d \<le> of_int n"
    using d by (simp add: pos_le_divide_eq)
  also have "\<dots> \<longleftrightarrow> (of_int (a * d) :: rat) \<le> of_int n" by simp
  also have "\<dots> \<longleftrightarrow> a * d \<le> n" by (simp only: of_int_le_iff)
  finally show ?thesis .
qed

lemma of_int_le_mult_iff:
  "0 < d \<Longrightarrow> (of_int n :: rat) / of_int d \<le> of_int b \<longleftrightarrow> n \<le> b * d"
proof -
  assume d: "0 < d"
  have "(of_int n :: rat) / of_int d \<le> of_int b \<longleftrightarrow> (of_int n :: rat) \<le> of_int b * of_int d"
    using d by (simp add: pos_divide_le_eq)
  also have "\<dots> \<longleftrightarrow> (of_int n :: rat) \<le> of_int (b * d)" by simp
  also have "\<dots> \<longleftrightarrow> n \<le> b * d" by (simp only: of_int_le_iff)
  finally show ?thesis .
qed

text \<open>The significand that \<open>round_pos\<close> computes, and the ratio it rounds.\<close>

lemma scaled_ratio:
  assumes "0 < p" and "0 < q"
  shows "0 < (if 0 \<le> sh then q else q * 2 ^ nat (- sh))
    \<and> (of_int (if 0 \<le> sh then p * 2 ^ nat sh else p) :: rat)
        / of_int (if 0 \<le> sh then q else q * 2 ^ nat (- sh))
      = of_int p / of_int q * 2 powi sh"
  using assms by (auto simp: power_int_def power_inverse field_simps)

lemma scaled_round_bounds:
  assumes p: "0 < p" and q: "0 < q"
    and lo: "(of_int a :: rat) \<le> of_int p / of_int q * 2 powi sh"
    and hi: "(of_int p :: rat) / of_int q * 2 powi sh \<le> of_int b"
  shows "a \<le> (if 0 \<le> sh then round_half_even (p * 2 ^ nat sh) q
               else round_half_even p (q * 2 ^ nat (- sh)))
    \<and> (if 0 \<le> sh then round_half_even (p * 2 ^ nat sh) q
               else round_half_even p (q * 2 ^ nat (- sh))) \<le> b"
proof -
  define N where "N = (if 0 \<le> sh then p * 2 ^ nat sh else p)"
  define D where "D = (if 0 \<le> sh then q else q * 2 ^ nat (- sh))"
  from scaled_ratio [OF p q, of sh]
  have D: "0 < D" and r: "(of_int N :: rat) / of_int D = of_int p / of_int q * 2 powi sh"
    by (simp_all add: N_def D_def)
  from lo have "(of_int a :: rat) \<le> of_int N / of_int D" unfolding r .
  then have "a * D \<le> N" by (simp only: of_int_mult_le_iff [OF D])
  then have 1: "a \<le> round_half_even N D" using D by (intro round_half_even_ge)
  from hi have "(of_int N :: rat) / of_int D \<le> of_int b" unfolding r .
  then have "N \<le> b * D" by (simp only: of_int_le_mult_iff [OF D])
  then have 2: "round_half_even N D \<le> b" using D by (intro round_half_even_le)
  have "(if 0 \<le> sh then round_half_even (p * 2 ^ nat sh) q
               else round_half_even p (q * 2 ^ nat (- sh))) = round_half_even N D"
    by (simp add: N_def D_def)
  with 1 2 show ?thesis by simp
qed

lemma round_pos_normal:
  assumes p: "0 < p" and q: "0 < q"
    and lo: "- 1022 \<le> floor_log2 p q" and hi: "floor_log2 p q \<le> 1022"
  shows "\<exists>m ex. round_pos p q = Finite m ex \<and> 2 ^ 52 \<le> m \<and> m < 2 ^ 53
           \<and> floor_log2 p q - 52 \<le> ex \<and> ex \<le> floor_log2 p q - 51"
proof -
  define e where "e = floor_log2 p q"
  define sh where "sh = 52 - e"
  define n where "n = (if 0 \<le> sh then round_half_even (p * 2 ^ nat sh) q
               else round_half_even p (q * 2 ^ nat (- sh)))"
  from floor_log2_bounds [OF p q]
  have b1: "(2::rat) powi e \<le> of_int p / of_int q"
    and b2: "(of_int p :: rat) / of_int q < 2 powi (e + 1)" by (simp_all add: e_def)
  have s: "(0::rat) < 2 powi sh" by simp
  have "(2::rat) powi e * 2 powi sh \<le> of_int p / of_int q * 2 powi sh"
    using b1 s by (simp only: mult_le_cancel_right_pos [OF s])
  moreover have "(2::rat) powi e * 2 powi sh = of_int (2 ^ 52)"
    by (simp add: sh_def power_int_add [symmetric])
  ultimately have l: "(of_int (2 ^ 52) :: rat) \<le> of_int p / of_int q * 2 powi sh" by simp
  have "(of_int p :: rat) / of_int q * 2 powi sh < 2 powi (e + 1) * 2 powi sh"
    using b2 s by (simp only: mult_less_cancel_right_pos [OF s])
  moreover have "(2::rat) powi (e + 1) * 2 powi sh = of_int (2 ^ 53)"
    by (simp add: sh_def power_int_add [symmetric])
  ultimately have u: "(of_int p :: rat) / of_int q * 2 powi sh \<le> of_int (2 ^ 53)" by simp
  from scaled_round_bounds [OF p q l u] have n: "2 ^ 52 \<le> n" "n \<le> 2 ^ 53"
    by (simp_all add: n_def)
  have mx: "max e (- 1022) = e" using lo by (simp add: e_def)
  have rp: "round_pos p q =
      (if n = 0 then Finite 0 0
         else if n = 2 ^ 53 then (if 1023 \<le> e then PosInf else Finite (2 ^ 52) (e - 51))
         else if 1024 \<le> e then PosInf
         else Finite n (e - 52))"
    unfolding round_pos_def e_def [symmetric] mx Let_def sh_def [symmetric] n_def [symmetric] ..
  show ?thesis
  proof (cases "n = 2 ^ 53")
    case True
    then have "round_pos p q = Finite (2 ^ 52) (e - 51)"
      using hi by (simp add: rp e_def)
    then show ?thesis by (simp add: e_def)
  next
    case False
    then have "round_pos p q = Finite n (e - 52)"
      using hi n by (simp add: rp e_def)
    then show ?thesis using n False by (simp add: e_def)
  qed
qed

lemma normal_doubleE:
  assumes "normal_double lo hi x"
  obtains m ex where "x = Finite m ex" "2 ^ 52 \<le> m" "m < 2 ^ 53" "lo \<le> ex" "ex \<le> hi"
  using assms by (cases x) (auto simp: normal_double_def)

lemma round_pos_between:
  assumes p: "0 < p" and q: "0 < q"
    and lo: "(2::rat) powi a \<le> of_int p / of_int q"
    and hi: "(of_int p :: rat) / of_int q < 2 powi b"
    and a: "- 1022 \<le> a" and b: "b \<le> 1023"
  shows "normal_double (a - 52) (b - 52) (round_pos p q)"
proof -
  from floor_log2_between [OF p q lo hi]
  have e: "a \<le> floor_log2 p q" "floor_log2 p q < b" by simp_all
  with a b have "- 1022 \<le> floor_log2 p q" "floor_log2 p q \<le> 1022" by simp_all
  from round_pos_normal [OF p q this] obtain m ex where
    "round_pos p q = Finite m ex" "2 ^ 52 \<le> m" "m < 2 ^ 53"
    "floor_log2 p q - 52 \<le> ex" "ex \<le> floor_log2 p q - 51" by blast
  with e show ?thesis by (simp add: normal_double_def)
qed

lemma float_div_pos:
  assumes "0 < m1" and "0 < m2"
  shows "\<exists>P Q. float_div (Finite m1 e1) (Finite m2 e2) = Inr (round_pos P Q) \<and> 0 < P \<and> 0 < Q
           \<and> (of_int P :: rat) / of_int Q = of_int m1 / of_int m2 * 2 powi (e1 - e2)"
proof -
  define k1 where "k1 = nat (e1 - min e1 e2)"
  define k2 where "k2 = nat (e2 - min e1 e2)"
  define P where "P = m1 * 2 ^ k1"
  define Q where "Q = m2 * 2 ^ k2"
  have pos: "0 < P" "0 < Q" using assms by (simp_all add: P_def Q_def)
  have "float_div (Finite m1 e1) (Finite m2 e2) = Inr (round_ratio P Q)"
    using assms by (simp add: P_def Q_def k1_def k2_def)
  then have fd: "float_div (Finite m1 e1) (Finite m2 e2) = Inr (round_pos P Q)"
    using pos by (simp add: round_ratio_def)
  have k: "e1 - e2 = int k1 - int k2" by (simp add: k1_def k2_def)
  have "(2::rat) powi (int k1 - int k2) = 2 powi int k1 / 2 powi int k2"
    by (rule power_int_diff) simp
  then have "(2::rat) powi (e1 - e2) = 2 ^ k1 / 2 ^ k2"
    unfolding k by (simp only: power_int_of_nat)
  then have "(of_int P :: rat) / of_int Q = of_int m1 / of_int m2 * 2 powi (e1 - e2)"
    by (simp add: P_def Q_def)
  with fd pos show ?thesis by blast
qed

lemma float_div_normal:
  assumes m: "0 < m1" "0 < m2"
    and lo: "(2::rat) powi a \<le> of_int m1 / of_int m2 * 2 powi (e1 - e2)"
    and hi: "(of_int m1 :: rat) / of_int m2 * 2 powi (e1 - e2) < 2 powi b"
    and a: "- 1022 \<le> a" and b: "b \<le> 1023"
  shows "\<exists>h. float_div (Finite m1 e1) (Finite m2 e2) = Inr h \<and> normal_double (a - 52) (b - 52) h"
proof -
  from float_div_pos [OF m, of e1 e2] obtain P Q where
    fd: "float_div (Finite m1 e1) (Finite m2 e2) = Inr (round_pos P Q)" and pos: "0 < P" "0 < Q"
    and r: "(of_int P :: rat) / of_int Q = of_int m1 / of_int m2 * 2 powi (e1 - e2)"
    by blast
  have "normal_double (a - 52) (b - 52) (round_pos P Q)"
    using pos lo hi a b unfolding r [symmetric] by (rule round_pos_between)
  with fd show ?thesis by blast
qed

lemma py_round_normal: "normal_double lo hi x \<Longrightarrow> \<exists>r. py_round x = Inr r"
  by (erule normal_doubleE) simp

lemma significand_ratio:
  assumes "2 ^ 52 \<le> m1" "m1 < 2 ^ 53" "2 ^ 52 \<le> m2" "m2 < 2 ^ 53"
  shows "(1 / 2 :: rat) < of_int m1 / of_int m2 \<and> (of_int m1 :: rat) / of_int m2 < 2"
proof -
  have "(of_int (2 ^ 52) :: rat) \<le> of_int m1" "(of_int m1 :: rat) < of_int (2 ^ 53)"
    "(of_int (2 ^ 52) :: rat) \<le> of_int m2" "(of_int m2 :: rat) < of_int (2 ^ 53)"
    using assms by (simp_all only: of_int_le_iff of_int_less_iff)
  then show ?thesis by (simp add: field_simps)
qed

lemma int_to_float_pos:
  assumes "0 < q" and "q < 2 ^ 1000"
  shows "\<exists>x. int_to_float q = Inr x \<and> normal_double (- 52) 948 x"
proof -
  have lo: "(2::rat) powi 0 \<le> of_int q / of_int 1" using assms(1) by simp
  have "(of_int q :: rat) < of_int (2 ^ 1000)" using assms(2) by (simp only: of_int_less_iff)
  then have hi: "(of_int q :: rat) / of_int 1 < 2 powi 1000" by simp
  have "normal_double (0 - 52) (1000 - 52) (round_pos q 1)"
    using assms(1) _ lo hi by (rule round_pos_between) simp_all
  then have n: "normal_double (- 52) 948 (round_pos q 1)" by simp
  then have "is_finite (round_pos q 1)"
    by (auto elim!: normal_doubleE simp: is_finite_def)
  then have "int_to_float q = Inr (round_pos q 1)"
    using assms(1) by (simp add: int_to_float_def round_ratio_def)
  with n show ?thesis by blast
qed

lemma rate_in_range:
  assumes q: "0 \<le> q" "q < 2 ^ 1000" and h: "normal_double (- 64) (- 4) h"
  shows "\<exists>r. rate q h = Inr r"
proof -
  from h obtain m2 e2 where h2: "h = Finite m2 e2" and m2: "2 ^ 52 \<le> m2" "m2 < 2 ^ 53"
    and e2: "- 64 \<le> e2" "e2 \<le> - 4" by (rule normal_doubleE)
  show ?thesis
  proof (cases "q = 0")
    case True
    have "int_to_float 0 = Inr (Finite 0 0)"
      by (simp add: int_to_float_def round_ratio_def is_finite_def)
    moreover have "float_div (Finite 0 0) (Finite m2 e2) = Inr (Finite 0 0)"
      using m2 by (simp add: round_ratio_def)
    ultimately show ?thesis by (simp add: rate_def True h2)
  next
    case False
    with q have "0 < q" by simp
    from int_to_float_pos [OF this q(2)] obtain x where x: "int_to_float q = Inr x"
      and nx: "normal_double (- 52) 948 x" by blast
    from nx obtain m1 e1 where x1: "x = Finite m1 e1" and m1: "2 ^ 52 \<le> m1" "m1 < 2 ^ 53"
      and e1: "- 52 \<le> e1" "e1 \<le> 948" by (rule normal_doubleE)
    from significand_ratio [OF m1 m2]
    have r: "(1 / 2 :: rat) < of_int m1 / of_int m2" "(of_int m1 :: rat) / of_int m2 < 2"
      by simp_all
    have pw: "(0::rat) < 2 powi (e1 - e2)" by simp
    have "(2::rat) powi (e1 - e2 - 1) = 1 / 2 * 2 powi (e1 - e2)"
      by (simp add: power_int_diff)
    also have "\<dots> \<le> of_int m1 / of_int m2 * 2 powi (e1 - e2)"
      using r(1) pw by (simp only: mult_le_cancel_right_pos [OF pw] less_imp_le)
    finally have lo: "(2::rat) powi (e1 - e2 - 1) \<le> of_int m1 / of_int m2 * 2 powi (e1 - e2)" .
    have "(of_int m1 :: rat) / of_int m2 * 2 powi (e1 - e2) < 2 * 2 powi (e1 - e2)"
      using r(2) pw by (simp only: mult_less_cancel_right_pos [OF pw])
    also have "\<dots> = 2 powi (e1 - e2 + 1)" by (simp add: power_int_add)
    finally have hi: "(of_int m1 :: rat) / of_int m2 * 2 powi (e1 - e2) < 2 powi (e1 - e2 + 1)" .
    have pos: "0 < m1" "0 < m2" using m1 m2 by simp_all
    have a: "- 1022 \<le> e1 - e2 - 1" and b: "e1 - e2 + 1 \<le> 1023" using e1 e2 by simp_all
    from float_div_normal [OF pos lo hi a b] obtain y where
      y: "float_div (Finite m1 e1) (Finite m2 e2) = Inr y"
      and ny: "normal_double (e1 - e2 - 1 - 52) (e1 - e2 + 1 - 52) y" by blast
    from py_round_normal [OF ny] obtain r where "py_round y = Inr r" by blast
    then show ?thesis by (simp add: rate_def x x1 h2 y del: float_div.simps)
  qed
qed

lemma round_pos_exact_int:
  assumes n: "0 < n" "n < 2 ^ 53" and k: "0 < k"
  shows "\<exists>m e. round_pos (n * k) k = Finite m e \<and> 0 < m
           \<and> (of_int m :: rat) * 2 powi e = of_int n \<and> \<not> less_than_one (Finite m e)"
proof -
  define e0 where "e0 = floor_log2 (n * k) k"
  define s where "s = nat (52 - e0)"
  have p: "0 < n * k" using n k by simp
  have ratio: "(of_int (n * k) :: rat) / of_int k = of_int n" using k by simp
  have lo: "(2::rat) powi 0 \<le> of_int (n * k) / of_int k" unfolding ratio using n by simp
  have "(of_int n :: rat) < of_int (2 ^ 53)" using n(2) by (simp only: of_int_less_iff)
  then have hi: "(of_int (n * k) :: rat) / of_int k < 2 powi 53" unfolding ratio by simp
  from floor_log2_between [OF p k lo hi] have e0: "0 \<le> e0" "e0 < 53" by (simp_all add: e0_def)
  from floor_log2_bounds [OF p k] have "(of_int n :: rat) < 2 powi (e0 + 1)"
    unfolding ratio by (simp add: e0_def)
  moreover have "(2::rat) powi (e0 + 1) = of_int (2 ^ nat (e0 + 1))"
    using e0 by (simp add: power_int_def)
  ultimately have "(of_int n :: rat) < of_int (2 ^ nat (e0 + 1))" by simp
  then have nlt: "n < 2 ^ nat (e0 + 1)" by (simp only: of_int_less_iff)
  have "nat (e0 + 1) + s = 53" using e0 by (simp add: s_def)
  then have "(2::int) ^ nat (e0 + 1) * 2 ^ s = 2 ^ 53" by (simp add: power_add [symmetric])
  moreover have "n * 2 ^ s < 2 ^ nat (e0 + 1) * 2 ^ s" using nlt by simp
  ultimately have m53: "n * 2 ^ s < 2 ^ 53" by simp
  have mpos: "0 < n * 2 ^ s" using n by simp
  have sh: "0 \<le> 52 - e0" using e0 by simp
  have "n * k * 2 ^ s = (n * 2 ^ s) * k" by simp
  then have rd: "round_half_even (n * k * 2 ^ s) k = n * 2 ^ s"
    using k by (simp add: round_half_even_exact)
  have mx: "max e0 (- 1022) = e0" using e0 by simp
  have rp: "round_pos (n * k) k = Finite (n * 2 ^ s) (e0 - 52)"
    unfolding round_pos_def e0_def [symmetric] mx Let_def
    using sh rd mpos m53 e0 n by (simp add: s_def)
  have "e0 - 52 = - int s" using e0 by (simp add: s_def)
  then have "(2::rat) powi (e0 - 52) = inverse (2 ^ s)"
    by (simp add: power_int_minus)
  then have val: "(of_int (n * 2 ^ s) :: rat) * 2 powi (e0 - 52) = of_int n" by simp
  have "(2::int) ^ s \<le> n * 2 ^ s" using n by simp
  then have l1: "\<not> less_than_one (Finite (n * 2 ^ s) (e0 - 52))"
    using e0 mpos by (auto simp: less_than_one_def s_def)
  from rp mpos val l1 show ?thesis by blast
qed

lemma total_seconds_exact:
  assumes "- (2 ^ 53) < n" and "n < 2 ^ 53"
  shows "\<exists>x m e. total_seconds n = Inr x \<and> max_with_one x = Finite m e \<and> 0 < m
           \<and> (of_int m :: rat) * 2 powi e = max (of_int n) 1"
proof -
  consider "0 < n" | "n = 0" | "n < 0" by linarith
  then show ?thesis
  proof cases
    case 1
    from round_pos_exact_int [OF 1 assms(2), of 1000000] obtain m e where
      rp: "round_pos (n * 1000000) 1000000 = Finite m e" and m: "0 < m"
      and v: "(of_int m :: rat) * 2 powi e = of_int n"
      and l: "\<not> less_than_one (Finite m e)" by auto
    have "total_seconds n = Inr (Finite m e)"
      using 1 rp by (simp add: total_seconds_def int_truediv_def round_ratio_def is_finite_def)
    moreover have "max_with_one (Finite m e) = Finite m e"
      using l by (simp add: max_with_one_def)
    moreover have "max (of_int n) 1 = (of_int n :: rat)" using 1 by simp
    ultimately show ?thesis using m v by auto
  next
    case 2
    have "total_seconds 0 = Inr (Finite 0 0)"
      by (simp add: total_seconds_def int_truediv_def round_ratio_def is_finite_def)
    moreover have "max_with_one (Finite 0 0) = Finite 1 0"
      by (simp add: max_with_one_def less_than_one_def)
    ultimately show ?thesis using 2 by auto
  next
    case 3
    then have pos: "0 < - n" by simp
    have lt: "- n < 2 ^ 53" using assms(1) by simp
    from round_pos_exact_int [OF pos lt, of 1000000] obtain m e where
      rp: "round_pos (- n * 1000000) 1000000 = Finite m e" and m: "0 < m" by auto
    have ab: "\<bar>n * 1000000\<bar> = - n * 1000000" using 3 by simp
    have "round_ratio (n * 1000000) 1000000 = Finite (- m) e"
      using 3 rp by (simp add: round_ratio_def ab dneg_def)
    then have "total_seconds n = Inr (Finite (- m) e)"
      by (simp add: total_seconds_def int_truediv_def is_finite_def)
    moreover have "less_than_one (Finite (- m) e)"
    proof -
      have "0 < m * 2 ^ nat e" using m by simp
      then have "- m * 2 ^ nat e < 1" by simp
      moreover have "(0::int) < 2 ^ nat (- e)" by simp
      then have "- m < 2 ^ nat (- e)" using m by linarith
      ultimately show ?thesis by (simp add: less_than_one_def)
    qed
    then have "max_with_one (Finite (- m) e) = Finite 1 0" by (simp add: max_with_one_def)
    moreover have "max (of_int n) 1 = (1 :: rat)" using 3 by simp
    ultimately show ?thesis by auto
  qed
qed

lemma normal_double_mono:
  "normal_double lo hi x \<Longrightarrow> lo' \<le> lo \<Longrightarrow> hi \<le> hi' \<Longrightarrow> normal_double lo' hi' x"
  by (cases x) (auto simp: normal_double_def)

lemma divide_elapsed:
  assumes m: "0 < m" and v: "(of_int m :: rat) * 2 powi e = v" and v1: "1 \<le> v" and v2: "v < 2 ^ 53"
  shows "\<exists>h. float_div (Finite m e) (Finite 3600 0) = Inr h \<and> normal_double (- 64) (- 4) h"
    and "\<exists>h. float_div (Finite m e) (Finite 60 0) = Inr h \<and> normal_double (- 64) (- 4) h"
proof -
  have r1: "(of_int m :: rat) / of_int 3600 * 2 powi (e - 0) = v / 3600"
    using v by simp
  have r2: "(of_int m :: rat) / of_int 60 * 2 powi (e - 0) = v / 60"
    using v by simp
  have p12: "(2::rat) powi (- 12) = 1 / 4096" and p42: "(2::rat) powi 42 = 4398046511104"
    and p6: "(2::rat) powi (- 6) = 1 / 64" and p48: "(2::rat) powi 48 = 281474976710656"
    by (simp_all add: power_int_minus inverse_eq_divide)
  have lo1: "(2::rat) powi (- 12) \<le> of_int m / of_int 3600 * 2 powi (e - 0)"
    unfolding r1 p12 using v1 by simp
  have hi1: "(of_int m :: rat) / of_int 3600 * 2 powi (e - 0) < 2 powi 42"
    unfolding r1 p42 using v2 by simp
  from float_div_normal [OF m _ lo1 hi1] obtain h where
    "float_div (Finite m e) (Finite 3600 0) = Inr h" "normal_double (- 12 - 52) (42 - 52) h"
    by auto
  then show "\<exists>h. float_div (Finite m e) (Finite 3600 0) = Inr h \<and> normal_double (- 64) (- 4) h"
    by (auto intro: normal_double_mono)
  have lo2: "(2::rat) powi (- 6) \<le> of_int m / of_int 60 * 2 powi (e - 0)"
    unfolding r2 p6 using v1 by simp
  have hi2: "(of_int m :: rat) / of_int 60 * 2 powi (e - 0) < 2 powi 48"
    unfolding r2 p48 using v2 by simp
  from float_div_normal [OF m _ lo2 hi2] obtain h where
    "float_div (Finite m e) (Finite 60 0) = Inr h" "normal_double (- 6 - 52) (48 - 52) h"
    by auto
  then show "\<exists>h. float_div (Finite m e) (Finite 60 0) = Inr h \<and> normal_double (- 64) (- 4) h"
    by (auto intro: normal_double_mono)
qed

lemma days_before_month_bounds: "0 \<le> days_before_month y m \<and> days_before_month y m \<le> 335"
proof -
  define k where "k = [0, 0, 31, 59, 90, 120, 151, 181, 212, 243, 273, 304, 334 :: nat] ! min m 12"
  have "min m 12 < length [0, 0, 31, 59, 90, 120, 151, 181, 212, 243, 273, 304, 334 :: nat]"
    by simp
  then have "k \<in> set [0, 0, 31, 59, 90, 120, 151, 181, 212, 243, 273, 304, 334 :: nat]"
    unfolding k_def by (rule nth_mem)
  then have "k \<le> 334" by auto
  then show ?thesis
    unfolding days_before_month_def k_def [symmetric] by simp
qed

lemma datetime_secs_bounds:
  assumes "valid_datetime t"
  shows "0 \<le> datetime_secs t \<and> datetime_secs t < 2 ^ 39"
proof -
  from assms have y: "1 \<le> year t" "year t \<le> 9999" and d: "1 \<le> day t" "day t \<le> 31"
    and h: "hour t \<le> 23" "minute t \<le> 59" "second t \<le> 59"
    by (auto simp: valid_datetime_def days_in_month_def split: if_splits)
  have "0 \<le> days_before_year (year t) \<and> days_before_year (year t) \<le> 3651793"
    using y by (simp add: days_before_year_def Let_def)
  moreover note days_before_month_bounds [of "year t" "month t"]
  ultimately have "1 \<le> ymd2ord (year t) (month t) (day t)
      \<and> ymd2ord (year t) (month t) (day t) \<le> 3652159"
    using d by (simp add: ymd2ord_def)
  then show ?thesis using h by (simp add: datetime_secs_def)
qed

section \<open>Properties of the item table\<close>

lemma key_in_keys: "(k, v) \<in> set d \<Longrightarrow> k \<in> fst ` set d"
  by force

lemma dict_add_keys_list:
  "map fst (dict_add k q d) = (if k \<in> set (map fst d) then map fst d else map fst d @ [k])"
  by (induction d) (auto dest: key_in_keys)

lemma dict_add_keys:
  "map fst (dict_add k q d) = (if k \<in> fst ` set d then map fst d else map fst d @ [k])"
  using dict_add_keys_list [of k q d] by simp

lemma dict_add_map_of:
  "map_of (dict_add k q d) = (map_of d)(k \<mapsto> (case map_of d k of None \<Rightarrow> 0 | Some v \<Rightarrow> v) + q)"
  by (induction d) (auto simp: fun_eq_iff)

lemma collect_items_snoc:
  "collect_items (evs @ [e]) d =
     (if \<not> is_yang e then dict_add (item e) (quantity e) (collect_items evs d)
      else collect_items evs d)"
  by (induction evs arbitrary: d) simp_all

lemma collect_items_keys:
  "fst ` set (collect_items evs []) = item ` {e \<in> set evs. \<not> is_yang e}"
proof (induction evs rule: rev_induct)
  case Nil
  then show ?case by simp
next
  case (snoc e evs)
  have "set (map fst (dict_add k q d)) = insert k (fst ` set d)" for k q d
    by (auto simp: dict_add_keys)
  then have k: "fst ` set (dict_add k q d) = insert k (fst ` set d)" for k q d
    by simp
  show ?case
    using snoc.IH by (auto simp: collect_items_snoc k)
qed

lemma collect_items_distinct: "distinct (map fst (collect_items evs []))"
  by (induction evs rule: rev_induct) (simp_all add: collect_items_snoc dict_add_keys)

lemma collect_items_map_of:
  "map_of (collect_items evs []) n =
     (if n \<in> item ` {e \<in> set evs. \<not> is_yang e}
      then Some (sum_list (map quantity (filter (\<lambda>e. item e = n) evs))) else None)"
proof (induction evs rule: rev_induct)
  case Nil
  then show ?case by simp
next
  case (snoc e evs)
  show ?case
  proof (cases "is_yang e")
    case True
    then have "n \<in> item ` {x \<in> set evs. \<not> is_yang x} \<Longrightarrow> item e \<noteq> n"
      by (auto simp: is_yang_def)
    then show ?thesis
      using True snoc.IH by (auto simp: collect_items_snoc)
  next
    case False
    show ?thesis
    proof (cases "item e = n")
      case True
      have "filter (\<lambda>x. item x = n) evs = []" if out: "n \<notin> item ` {x \<in> set evs. \<not> is_yang x}"
        unfolding filter_empty_conv
      proof
        fix x assume x: "x \<in> set evs"
        show "\<not> item x = n"
        proof
          assume eq: "item x = n"
          with True False have "\<not> is_yang x" by (simp add: is_yang_def)
          with x have "x \<in> {x \<in> set evs. \<not> is_yang x}" by simp
          then have "item x \<in> item ` {x \<in> set evs. \<not> is_yang x}" by (rule imageI)
          with eq out show False by simp
        qed
      qed
      then show ?thesis
        using True False snoc.IH by (auto simp: collect_items_snoc dict_add_map_of)
    next
      case ne: False
      then show ?thesis
        using False snoc.IH by (auto simp: collect_items_snoc dict_add_map_of)
    qed
  qed
qed

lemma takeWhile_shorter:
  "x \<in> set xs \<Longrightarrow> \<not> P x \<Longrightarrow> length (takeWhile P xs) < length xs"
  by (induction xs) auto

lemma first_seen_old:
  assumes "n \<in> item ` set evs"
  shows "first_seen n (evs @ [e]) = first_seen n evs \<and> first_seen n evs < length evs"
proof -
  from assms obtain x where x: "x \<in> set evs" "\<not> item x \<noteq> n" by auto
  then have "takeWhile (\<lambda>e. item e \<noteq> n) (evs @ [e]) = takeWhile (\<lambda>e. item e \<noteq> n) evs"
    by (rule takeWhile_append1)
  moreover have "length (takeWhile (\<lambda>e. item e \<noteq> n) evs) < length evs"
    using x by (rule takeWhile_shorter)
  ultimately show ?thesis by (simp add: first_seen_def)
qed

lemma first_seen_new:
  assumes "n \<notin> item ` set evs" and "item e = n"
  shows "first_seen n (evs @ [e]) = length evs"
proof -
  have "takeWhile (\<lambda>e. item e \<noteq> n) (evs @ [e]) = evs @ takeWhile (\<lambda>e. item e \<noteq> n) [e]"
    by (rule takeWhile_append2) (use assms(1) in auto)
  then show ?thesis using assms(2) by (simp add: first_seen_def)
qed

lemma collect_items_first_seen:
  "sorted_wrt (\<lambda>a b. first_seen a evs < first_seen b evs) (map fst (collect_items evs []))"
proof (induction evs rule: rev_induct)
  case Nil
  then show ?case by simp
next
  case (snoc e evs)
  let ?d = "collect_items evs []"
  have keys: "set (map fst ?d) \<subseteq> item ` set evs"
    using collect_items_keys [of evs] by auto
  have old: "sorted_wrt (\<lambda>a b. first_seen a (evs @ [e]) < first_seen b (evs @ [e])) (map fst ?d)"
  proof (rule sorted_wrt_mono_rel [OF _ snoc.IH])
    fix a b assume "a \<in> set (map fst ?d)" "b \<in> set (map fst ?d)"
      and lt: "first_seen a evs < first_seen b evs"
    with keys have "a \<in> item ` set evs" "b \<in> item ` set evs" by auto
    then show "first_seen a (evs @ [e]) < first_seen b (evs @ [e])"
      using lt by (simp add: first_seen_old)
  qed
  show ?case
  proof (cases "\<not> is_yang e \<and> item e \<notin> fst ` set ?d")
    case False
    then show ?thesis
      using old by (auto simp: collect_items_snoc dict_add_keys)
  next
    case True
    then have new: "item e \<notin> item ` set evs \<or> item e \<in> item ` {x \<in> set evs. is_yang x}"
      using collect_items_keys [of evs] by auto
    have "item e \<notin> item ` {x \<in> set evs. is_yang x}"
      using True by (auto simp: is_yang_def)
    with new have fresh: "item e \<notin> item ` set evs" by simp
    have "\<forall>a\<in>set (map fst ?d). first_seen a (evs @ [e]) < first_seen (item e) (evs @ [e])"
    proof
      fix a assume "a \<in> set (map fst ?d)"
      with keys have "a \<in> item ` set evs" by auto
      then have "first_seen a (evs @ [e]) < length evs"
        by (simp add: first_seen_old)
      then show "first_seen a (evs @ [e]) < first_seen (item e) (evs @ [e])"
        using first_seen_new [OF fresh refl] by simp
    qed
    then show ?thesis
      using old True by (simp add: collect_items_snoc dict_add_keys sorted_wrt_append)
  qed
qed

lemma sorted_wrt_insort_lex:
  fixes f :: "'a \<Rightarrow> int"
  assumes "\<forall>y\<in>set ys. R x y"
    and "sorted_wrt (\<lambda>a b. f a < f b \<or> (f a = f b \<and> R a b)) ys"
  shows "sorted_wrt (\<lambda>a b. f a < f b \<or> (f a = f b \<and> R a b)) (insort_key f x ys)"
  using assms
proof (induction ys)
  case Nil
  then show ?case by simp
next
  case (Cons y ys)
  show ?case
  proof (cases "f x \<le> f y")
    case True
    have "\<forall>z\<in>set (y # ys). f x < f z \<or> (f x = f z \<and> R x z)"
    proof
      fix z assume z: "z \<in> set (y # ys)"
      then have "f y \<le> f z" using Cons.prems(2) by auto
      with True have "f x \<le> f z" by simp
      moreover have "R x z" using Cons.prems(1) z by blast
      ultimately show "f x < f z \<or> (f x = f z \<and> R x z)" by auto
    qed
    then show ?thesis using True Cons.prems(2) by simp
  next
    case False
    have ih: "sorted_wrt (\<lambda>a b. f a < f b \<or> (f a = f b \<and> R a b)) (insort_key f x ys)"
      using Cons.IH Cons.prems by simp
    have "\<forall>z\<in>set (insort_key f x ys). f y < f z \<or> (f y = f z \<and> R y z)"
      using False Cons.prems(2) by (auto simp: set_insort_key)
    then show ?thesis using False ih by simp
  qed
qed

lemma sorted_wrt_sort_key_lex:
  fixes f :: "'a \<Rightarrow> int"
  shows "sorted_wrt R xs \<Longrightarrow> sorted_wrt (\<lambda>a b. f a < f b \<or> (f a = f b \<and> R a b)) (sort_key f xs)"
proof (induction xs)
  case Nil
  then show ?case by simp
next
  case (Cons x xs)
  have "\<forall>y\<in>set (sort_key f xs). R x y" using Cons.prems by simp
  moreover have "sorted_wrt (\<lambda>a b. f a < f b \<or> (f a = f b \<and> R a b)) (sort_key f xs)"
    using Cons by simp
  ultimately show ?case
    using sorted_wrt_insort_lex [of "sort_key f xs" R x f] by simp
qed

lemma sort_by_qty_desc_ranked:
  assumes "sorted_wrt (\<lambda>a b. first_seen (fst a) events < first_seen (fst b) events) xs"
  shows "sorted_wrt (ranks_before events) (sort_by_qty_desc xs)"
proof -
  have "sorted_wrt (\<lambda>a b. - fst (snd a) < - fst (snd b)
          \<or> (- fst (snd a) = - fst (snd b)
               \<and> first_seen (fst a) events < first_seen (fst b) events))
          (sort_key (\<lambda>x. - fst (snd x)) xs)"
    using assms by (rule sorted_wrt_sort_key_lex)
  then show ?thesis
    by (simp add: sort_by_qty_desc_def ranks_before_def [abs_def])
qed

section \<open>Properties of the statistics\<close>






lemma build_items_in_range:
  "normal_double (- 64) (- 4) h \<Longrightarrow> \<forall>x\<in>set d. 0 \<le> snd x \<and> snd x < 2 ^ 1000 \<Longrightarrow>
     \<exists>l. build_items h d = Inr l"
proof (induction d)
  case Nil
  then show ?case by simp
next
  case (Cons a d)
  obtain name qty where a: "a = (name, qty)" by (cases a)
  from Cons.prems(2) have q: "0 \<le> qty" "qty < 2 ^ 1000" by (simp_all add: a)
  from rate_in_range [OF q Cons.prems(1)] obtain r where r: "rate qty h = Inr r" by blast
  from Cons.prems(2) have "\<forall>x\<in>set d. 0 \<le> snd x \<and> snd x < 2 ^ 1000" by simp
  from Cons.IH [OF Cons.prems(1) this] obtain l where "build_items h d = Inr l" by blast
  then show ?case by (simp add: a r)
qed

lemma build_items_shape:
  "build_items h d = Inr l \<Longrightarrow>
     map fst l = map fst d \<and> map (\<lambda>x. fst (snd x)) l = map snd d
       \<and> (\<forall>x\<in>set l. rate (fst (snd x)) h = Inr (snd (snd x)))"
proof (induction d arbitrary: l)
  case Nil
  then show ?case by simp
next
  case (Cons a d)
  obtain name qty where a: "a = (name, qty)" by (cases a)
  from Cons.prems obtain r l' where r: "rate qty h = Inr r" and l': "build_items h d = Inr l'"
    and l: "l = (name, qty, r) # l'"
    by (auto simp: a split: sum.splits)
  from Cons.IH [OF l'] show ?case by (simp add: l a r)
qed

lemma compute_stats_SomeD:
  assumes "compute_stats events = Inr (Some s)"
  shows "events \<noteq> []"
    and "start_time s = ts (hd events)" and "end_time s = ts (last events)"
    and "total_yang s = sum_list (map quantity (filter is_yang events))"
    and "\<exists>el. elapsed_seconds (ts (hd events)) (ts (last events)) = Inr el
            \<and> float_div el (Finite 3600 0) = Inr (hours s)
            \<and> float_div el (Finite 60 0) = Inr (minutes s)"
    and "\<exists>l. build_items (hours s) (collect_items events []) = Inr l
            \<and> items s = sort_by_qty_desc l"
    and "rate (total_yang s) (hours s) = Inr (yang_per_hour s)"
    and "rate (total_yang s) (minutes s) = Inr (yang_per_minute s)"
  using assms
  by (auto simp: compute_stats_def Let_def simp del: float_div.simps
      split: if_splits sum.splits)

lemma compute_stats_None_iff: "compute_stats events = Inr None \<longleftrightarrow> events = []"
  by (auto simp: compute_stats_def Let_def simp del: float_div.simps split: sum.splits)

lemma sum_filter_bounds:
  "\<forall>e\<in>set xs. 0 \<le> quantity e \<Longrightarrow>
     0 \<le> sum_list (map quantity (filter P xs))
       \<and> sum_list (map quantity (filter P xs)) \<le> sum_list (map quantity xs)"
  by (induction xs) auto

lemma collect_items_bounds:
  assumes nn: "\<forall>e\<in>set events. 0 \<le> quantity e"
    and sm: "sum_list (map quantity events) < b"
  shows "\<forall>x\<in>set (collect_items events []). 0 \<le> snd x \<and> snd x < b"
proof
  fix x assume x: "x \<in> set (collect_items events [])"
  obtain n q where nq: "x = (n, q)" by (cases x)
  from x have "map_of (collect_items events []) n = Some q"
    by (simp add: nq collect_items_distinct)
  then have "q = sum_list (map quantity (filter (\<lambda>e. item e = n) events))"
    by (simp add: collect_items_map_of split: if_splits)
  with sum_filter_bounds [OF nn, of "\<lambda>e. item e = n"] sm
  show "0 \<le> snd x \<and> snd x < b" by (simp add: nq)
qed

lemma elapsed_of_valid:
  assumes "valid_datetime a" and "valid_datetime b"
  shows "\<exists>m e. elapsed_seconds a b = Inr (Finite m e) \<and> 0 < m
           \<and> (of_int m :: rat) * 2 powi e = max (of_int (datetime_secs b - datetime_secs a)) 1"
proof -
  from datetime_secs_bounds [OF assms(1)] datetime_secs_bounds [OF assms(2)]
  have "- (2 ^ 53) < datetime_secs b - datetime_secs a"
    and "datetime_secs b - datetime_secs a < 2 ^ 53" by simp_all
  from total_seconds_exact [OF this] show ?thesis
    by (auto simp: elapsed_seconds_def)
qed

lemma span_below:
  assumes "valid_datetime a" and "valid_datetime b"
  shows "max (of_int (datetime_secs b - datetime_secs a)) 1 < (2 ^ 53 :: rat)"
proof -
  from datetime_secs_bounds [OF assms(1)] datetime_secs_bounds [OF assms(2)]
  have "datetime_secs b - datetime_secs a < 2 ^ 53" by simp
  then have "(of_int (datetime_secs b - datetime_secs a) :: rat) < of_int (2 ^ 53)"
    by (simp only: of_int_less_iff)
  then show ?thesis by simp
qed

text \<open>What a non-empty window of events with valid timestamps computes before the rates.\<close>

lemma compute_stats_prefix:
  assumes ne: "events \<noteq> []"
    and v1: "valid_datetime (ts (hd events))" and v2: "valid_datetime (ts (last events))"
  shows "\<exists>m e h mi. elapsed_seconds (ts (hd events)) (ts (last events)) = Inr (Finite m e)
      \<and> (of_int m :: rat) * 2 powi e = max (of_int (ev_secs (last events) - ev_secs (hd events))) 1
      \<and> float_div (Finite m e) (Finite 3600 0) = Inr h \<and> normal_double (- 64) (- 4) h
      \<and> float_div (Finite m e) (Finite 60 0) = Inr mi \<and> normal_double (- 64) (- 4) mi
      \<and> compute_stats events =
          (case build_items h (collect_items events []) of
             Inl err \<Rightarrow> Inl err
           | Inr items_list \<Rightarrow>
              (case rate (sum_list (map quantity (filter is_yang events))) h of
                 Inl err \<Rightarrow> Inl err
               | Inr per_hour \<Rightarrow>
                  (case rate (sum_list (map quantity (filter is_yang events))) mi of
                     Inl err \<Rightarrow> Inl err
                   | Inr per_minute \<Rightarrow>
                       Inr (Some \<lparr> start_time = ts (hd events), end_time = ts (last events),
                            hours = h, minutes = mi,
                            total_yang = sum_list (map quantity (filter is_yang events)),
                            yang_per_hour = per_hour, yang_per_minute = per_minute,
                            items = sort_by_qty_desc items_list \<rparr>))))"
proof -
  from elapsed_of_valid [OF v1 v2] obtain m e where
    el: "elapsed_seconds (ts (hd events)) (ts (last events)) = Inr (Finite m e)" and m: "0 < m"
    and v: "(of_int m :: rat) * 2 powi e = max (of_int (ev_secs (last events) - ev_secs (hd events))) 1"
    by blast
  have ge: "(1::rat) \<le> max (of_int (ev_secs (last events) - ev_secs (hd events))) 1" by simp
  note lt = span_below [OF v1 v2]
  from divide_elapsed [OF m v ge lt] obtain h mi where
    h: "float_div (Finite m e) (Finite 3600 0) = Inr h" "normal_double (- 64) (- 4) h"
    and mi: "float_div (Finite m e) (Finite 60 0) = Inr mi" "normal_double (- 64) (- 4) mi"
    by blast
  have "compute_stats events =
          (case build_items h (collect_items events []) of
             Inl err \<Rightarrow> Inl err
           | Inr items_list \<Rightarrow>
              (case rate (sum_list (map quantity (filter is_yang events))) h of
                 Inl err \<Rightarrow> Inl err
               | Inr per_hour \<Rightarrow>
                  (case rate (sum_list (map quantity (filter is_yang events))) mi of
                     Inl err \<Rightarrow> Inl err
                   | Inr per_minute \<Rightarrow>
                       Inr (Some \<lparr> start_time = ts (hd events), end_time = ts (last events),
                            hours = h, minutes = mi,
                            total_yang = sum_list (map quantity (filter is_yang events)),
                            yang_per_hour = per_hour, yang_per_minute = per_minute,
                            items = sort_by_qty_desc items_list \<rparr>))))"
    using ne by (simp add: compute_stats_def Let_def el h mi del: float_div.simps)
  with el v h mi show ?thesis by blast
qed

lemma compute_stats_returns:
  assumes ne: "events \<noteq> []"
    and v1: "valid_datetime (ts (hd events))" and v2: "valid_datetime (ts (last events))"
    and nn: "\<forall>e\<in>set events. 0 \<le> quantity e"
    and sm: "sum_list (map quantity events) < 2 ^ 1000"
  shows "\<exists>s. compute_stats events = Inr (Some s)
           \<and> normal_double (- 64) (- 4) (hours s) \<and> normal_double (- 64) (- 4) (minutes s)"
proof -
  let ?total = "sum_list (map quantity (filter is_yang events))"
  from compute_stats_prefix [OF ne v1 v2] obtain h mi where
    h: "normal_double (- 64) (- 4) h" and mi: "normal_double (- 64) (- 4) mi"
    and cs: "compute_stats events =
          (case build_items h (collect_items events []) of
             Inl err \<Rightarrow> Inl err
           | Inr items_list \<Rightarrow>
              (case rate ?total h of
                 Inl err \<Rightarrow> Inl err
               | Inr per_hour \<Rightarrow>
                  (case rate ?total mi of
                     Inl err \<Rightarrow> Inl err
                   | Inr per_minute \<Rightarrow>
                       Inr (Some \<lparr> start_time = ts (hd events), end_time = ts (last events),
                            hours = h, minutes = mi, total_yang = ?total,
                            yang_per_hour = per_hour, yang_per_minute = per_minute,
                            items = sort_by_qty_desc items_list \<rparr>))))"
    by blast
  from sum_filter_bounds [OF nn, of is_yang] sm
  have t: "0 \<le> ?total" "?total < 2 ^ 1000" by simp_all
  from rate_in_range [OF t h] obtain ph where ph: "rate ?total h = Inr ph" by blast
  from rate_in_range [OF t mi] obtain pm where pm: "rate ?total mi = Inr pm" by blast
  from build_items_in_range [OF h collect_items_bounds [OF nn sm]]
  obtain l where l: "build_items h (collect_items events []) = Inr l" by blast
  show ?thesis
    unfolding cs using h mi by (simp add: l ph pm)
qed





lemma clock_valid: "h \<le> 23 \<Longrightarrow> m \<le> 59 \<Longrightarrow> s \<le> 59 \<Longrightarrow> valid_datetime (clock h m s)"
  by (simp add: valid_datetime_def clock_def days_in_month_def)



text \<open>
  C9. The three events at 10:00:00 (5 Yang), 10:00:10 (100 Iron Ore) and 10:30:00 (5 Yang)
  of one day, appended to an empty window of 60 minutes, all stay in the window, and the
  snapshot has the total 10, the interval 10:00:00 to 10:30:00, 1800 elapsed seconds,
  half an hour and thirty minutes as floats, 20 Yang per hour and the single item entry
  (Iron Ore, 100, 200).
\<close>

theorem end_to_end_scenario:
  "add_events (new_worker 60 1)
     [loot (clock 10 0 0) 5 ''Yang'', loot (clock 10 0 10) 100 ''Iron Ore'',
      loot (clock 10 30 0) 5 ''Yang'']
     = ((new_worker 60 1)\<lparr>window :=
          [loot (clock 10 0 0) 5 ''Yang'', loot (clock 10 0 10) 100 ''Iron Ore'',
           loot (clock 10 30 0) 5 ''Yang'']\<rparr>, None)
   \<and> fst (compute_stats_from_window ((new_worker 60 1)\<lparr>window :=
          [loot (clock 10 0 0) 5 ''Yang'', loot (clock 10 0 10) 100 ''Iron Ore'',
           loot (clock 10 30 0) 5 ''Yang'']\<rparr>))
     = Inr (Some \<lparr> start_time = clock 10 0 0, end_time = clock 10 30 0,
                    hours = Finite 4503599627370496 (- 53),
                    minutes = Finite 8444249301319680 (- 48), total_yang = 10,
                    yang_per_hour = 20, yang_per_minute = 0,
                    items = [(''Iron Ore'', 100, 200)] \<rparr>)
   \<and> elapsed_seconds (clock 10 0 0) (clock 10 30 0) = Inr (Finite 7916483719987200 (- 42))
   \<and> double_val (Finite 7916483719987200 (- 42)) = 1800
   \<and> double_val (Finite 4503599627370496 (- 53)) = 1800 / 3600
   \<and> double_val (Finite 8444249301319680 (- 48)) = 1800 / 60"
proof (intro conjI)
  show "add_events (new_worker 60 1)
     [loot (clock 10 0 0) 5 ''Yang'', loot (clock 10 0 10) 100 ''Iron Ore'',
      loot (clock 10 30 0) 5 ''Yang'']
     = ((new_worker 60 1)\<lparr>window :=
          [loot (clock 10 0 0) 5 ''Yang'', loot (clock 10 0 10) 100 ''Iron Ore'',
           loot (clock 10 30 0) 5 ''Yang'']\<rparr>, None)"
    by (simp add: add_event_def minus_minutes_def loot_secs clock_secs max_secs_def new_worker_def)
  show "fst (compute_stats_from_window ((new_worker 60 1)\<lparr>window :=
          [loot (clock 10 0 0) 5 ''Yang'', loot (clock 10 0 10) 100 ''Iron Ore'',
           loot (clock 10 30 0) 5 ''Yang'']\<rparr>))
     = Inr (Some \<lparr> start_time = clock 10 0 0, end_time = clock 10 30 0,
                    hours = Finite 4503599627370496 (- 53),
                    minutes = Finite 8444249301319680 (- 48), total_yang = 10,
                    yang_per_hour = 20, yang_per_minute = 0,
                    items = [(''Iron Ore'', 100, 200)] \<rparr>)"
    by code_simp
  show "elapsed_seconds (clock 10 0 0) (clock 10 30 0) = Inr (Finite 7916483719987200 (- 42))"
    by code_simp
  show "double_val (Finite 7916483719987200 (- 42)) = 1800"
    and "double_val (Finite 4503599627370496 (- 53)) = 1800 / 3600"
    and "double_val (Finite 8444249301319680 (- 48)) = 1800 / 60"
    by (simp_all add: double_val_def power_int_minus)
qed

lemma build_items_pairs:
  "build_items h d = Inr l \<Longrightarrow> map (\<lambda>x. (fst x, fst (snd x))) l = d"
proof (induction d arbitrary: l)
  case Nil
  then show ?case by simp
next
  case (Cons a d)
  obtain name qty where a: "a = (name, qty)" by (cases a)
  from Cons.prems obtain r l' where l': "build_items h d = Inr l'"
    and l: "l = (name, qty, r) # l'"
    by (auto simp: a split: sum.splits)
  from Cons.IH [OF l'] show ?case by (simp add: l a)
qed

text \<open>
  C5. Whenever a snapshot is returned, it has one item entry for each distinct name among
  the events that are not Yang, with the sum of that name's quantities and its hourly rate,
  and the entries are in descending order of quantity, equal quantities in the order in
  which the names first appeared in the window. A snapshot is returned for every non-empty
  window with valid first and last timestamps whose quantities are not negative and sum to
  less than \<open>2 ^ 1000\<close>.
\<close>

theorem item_ordering:
  "(compute_stats events = Inr (Some s) \<longrightarrow>
       distinct (map fst (items s))
     \<and> fst ` set (items s) = item ` {e \<in> set events. \<not> is_yang e}
     \<and> (\<forall>x\<in>set (items s).
           fst (snd x) = sum_list (map quantity (filter (\<lambda>e. item e = fst x) events))
         \<and> rate (fst (snd x)) (hours s) = Inr (snd (snd x)))
     \<and> sorted_wrt (ranks_before events) (items s))
   \<and> (events \<noteq> [] \<and> valid_datetime (ts (hd events)) \<and> valid_datetime (ts (last events))
        \<and> (\<forall>e\<in>set events. 0 \<le> quantity e) \<and> sum_list (map quantity events) < 2 ^ 1000
      \<longrightarrow> (\<exists>s. compute_stats events = Inr (Some s)))"
proof (intro conjI impI)
  assume cs: "compute_stats events = Inr (Some s)"
  let ?d = "collect_items events []"
  from compute_stats_SomeD(6) [OF cs] obtain l where
    bl: "build_items (hours s) ?d = Inr l" and it: "items s = sort_by_qty_desc l" by blast
  from build_items_shape [OF bl] have keys: "map fst l = map fst ?d"
    and rates: "\<forall>x\<in>set l. rate (fst (snd x)) (hours s) = Inr (snd (snd x))" by simp_all
  note pairs = build_items_pairs [OF bl]
  have set_items: "set (items s) = set l" by (simp add: it sort_by_qty_desc_def)
  have "distinct (map fst l)" unfolding keys by (rule collect_items_distinct)
  then have "distinct l \<and> inj_on fst (set l)" by (simp only: distinct_map)
  then have "distinct (items s) \<and> inj_on fst (set (items s))"
    by (simp add: it sort_by_qty_desc_def)
  then show "distinct (map fst (items s))" by (simp only: distinct_map)
  have "fst ` set l = set (map fst l)" by simp
  also have "\<dots> = fst ` set ?d" unfolding keys by simp
  finally show "fst ` set (items s) = item ` {e \<in> set events. \<not> is_yang e}"
    unfolding set_items by (simp only: collect_items_keys)
  show "\<forall>x\<in>set (items s).
           fst (snd x) = sum_list (map quantity (filter (\<lambda>e. item e = fst x) events))
         \<and> rate (fst (snd x)) (hours s) = Inr (snd (snd x))"
  proof
    fix x assume "x \<in> set (items s)"
    then have x: "x \<in> set l" by (simp only: set_items)
    then have "(fst x, fst (snd x)) \<in> (\<lambda>x. (fst x, fst (snd x))) ` set l" by (rule imageI)
    then have "(fst x, fst (snd x)) \<in> set (map (\<lambda>x. (fst x, fst (snd x))) l)" by simp
    then have "(fst x, fst (snd x)) \<in> set ?d" by (simp only: pairs)
    then have "map_of ?d (fst x) = Some (fst (snd x))"
      by (simp add: collect_items_distinct)
    then have "fst (snd x) = sum_list (map quantity (filter (\<lambda>e. item e = fst x) events))"
      by (simp add: collect_items_map_of split: if_splits)
    moreover from rates x have "rate (fst (snd x)) (hours s) = Inr (snd (snd x))"
      by (rule bspec)
    ultimately show "fst (snd x) = sum_list (map quantity (filter (\<lambda>e. item e = fst x) events))
         \<and> rate (fst (snd x)) (hours s) = Inr (snd (snd x))" by simp
  qed
  have "sorted_wrt (\<lambda>a b. first_seen a events < first_seen b events) (map fst l)"
    unfolding keys by (rule collect_items_first_seen)
  then have "sorted_wrt (\<lambda>a b. first_seen (fst a) events < first_seen (fst b) events) l"
    by (simp add: sorted_wrt_map)
  then show "sorted_wrt (ranks_before events) (items s)"
    unfolding it by (rule sort_by_qty_desc_ranked)
next
  assume "events \<noteq> [] \<and> valid_datetime (ts (hd events)) \<and> valid_datetime (ts (last events))
        \<and> (\<forall>e\<in>set events. 0 \<le> quantity e) \<and> sum_list (map quantity events) < 2 ^ 1000"
  then have "events \<noteq> []" "valid_datetime (ts (hd events))" "valid_datetime (ts (last events))"
    "\<forall>e\<in>set events. 0 \<le> quantity e" "sum_list (map quantity events) < 2 ^ 1000"
    by blast+
  from compute_stats_returns [OF this] show "\<exists>s. compute_stats events = Inr (Some s)"
    by blast
qed

theorem item_ordering_witness:
  "compute_stats
      [loot (clock 10 0 0) 30 ''A'', loot (clock 10 0 0) 20 ''B'',
       loot (clock 10 0 0) 50 ''C'', loot (clock 10 0 0) 30 ''B'']
     = Inr (Some \<lparr> start_time = clock 10 0 0, end_time = clock 10 0 0,
                    hours = Finite 5124095576030431 (- 64),
                    minutes = Finite 4803839602528529 (- 58), total_yang = 0,
                    yang_per_hour = 0, yang_per_minute = 0,
                    items = [(''B'', 50, 180000), (''C'', 50, 180000), (''A'', 30, 108000)] \<rparr>)
   \<and> distinct (map fst [(''B'', 50 :: int, 180000 :: int), (''C'', 50, 180000), (''A'', 30, 108000)])
   \<and> sorted_wrt (ranks_before
        [loot (clock 10 0 0) 30 ''A'', loot (clock 10 0 0) 20 ''B'',
         loot (clock 10 0 0) 50 ''C'', loot (clock 10 0 0) 30 ''B''])
        [(''B'', 50, 180000), (''C'', 50, 180000), (''A'', 30, 108000)]
   \<and> valid_datetime (clock 10 0 0)
   \<and> sum_list (map quantity
        [loot (clock 10 0 0) 30 ''A'', loot (clock 10 0 0) 20 ''B'',
         loot (clock 10 0 0) 50 ''C'', loot (clock 10 0 0) 30 ''B'']) < 2 ^ 1000
   \<and> (\<exists>s. compute_stats
        [loot (clock 10 0 0) 30 ''A'', loot (clock 10 0 0) 20 ''B'',
         loot (clock 10 0 0) 50 ''C'', loot (clock 10 0 0) 30 ''B''] = Inr (Some s))"
proof -
  let ?evs = "[loot (clock 10 0 0) 30 ''A'', loot (clock 10 0 0) 20 ''B'',
               loot (clock 10 0 0) 50 ''C'', loot (clock 10 0 0) 30 ''B'']"
  let ?s = "\<lparr> start_time = clock 10 0 0, end_time = clock 10 0 0,
                    hours = Finite 5124095576030431 (- 64),
                    minutes = Finite 4803839602528529 (- 58), total_yang = 0,
                    yang_per_hour = 0, yang_per_minute = 0,
                    items = [(''B'', 50, 180000), (''C'', 50, 180000), (''A'', 30, 108000)] \<rparr>"
  have cs: "compute_stats ?evs = Inr (Some ?s)" by code_simp
  from item_ordering [THEN conjunct1, rule_format, OF cs]
  have "distinct (map fst (items ?s))" and "sorted_wrt (ranks_before ?evs) (items ?s)"
    by blast+
  then have "distinct (map fst [(''B'', 50 :: int, 180000 :: int), (''C'', 50, 180000), (''A'', 30, 108000)])"
    and "sorted_wrt (ranks_before ?evs) [(''B'', 50, 180000), (''C'', 50, 180000), (''A'', 30, 108000)]"
    by (simp_all only: stats.simps)
  note a = this
  have v: "valid_datetime (clock 10 0 0)" by (simp add: clock_valid)
  have sm: "sum_list (map quantity ?evs) < 2 ^ 1000" by (simp add: loot_def)
  have hyps: "?evs \<noteq> [] \<and> valid_datetime (ts (hd ?evs)) \<and> valid_datetime (ts (last ?evs))
        \<and> (\<forall>e\<in>set ?evs. 0 \<le> quantity e) \<and> sum_list (map quantity ?evs) < 2 ^ 1000"
    using v sm by (simp add: loot_def)
  from item_ordering [THEN conjunct2, rule_format, OF hyps]
  have ex: "\<exists>s. compute_stats ?evs = Inr (Some s)" .
  show ?thesis
    by (intro conjI) (rule cs, rule a(1), rule a(2), rule v, rule sm, rule ex)
qed

section \<open>Properties of the polling loop\<close>

lemma compute_stats_cases:
  "compute_stats events = Inr None \<and> events = [] \<or>
   (\<exists>e. compute_stats events = Inl e \<and> events \<noteq> []) \<or>
   (\<exists>s. compute_stats events = Inr (Some s) \<and> events \<noteq> [])"
proof (cases "compute_stats events")
  case (Inl e)
  then have "events \<noteq> []" by (auto simp: compute_stats_def)
  with Inl show ?thesis by simp
next
  case (Inr r)
  show ?thesis
  proof (cases r)
    case None
    with Inr show ?thesis by (simp add: compute_stats_None_iff)
  next
    case (Some s)
    with Inr compute_stats_SomeD(1) [of events s] show ?thesis by simp
  qed
qed

text \<open>
  C7. The snapshot computation returns no snapshot exactly when the window is empty. An
  iteration of the loop that ends with an empty window passes nothing to the callback, so
  what was delivered before stays as it was; an iteration delivers at most one snapshot,
  the one computed from the window it ends with.
\<close>

theorem empty_window_guard:
  "(fst (compute_stats_from_window w) = Inr None) = (window w = [])
   \<and> (window (self (fst (run_step md st inp))) = [] \<longrightarrow>
        delivered (fst (run_step md st inp)) = delivered st)
   \<and> (delivered (fst (run_step md st inp)) = delivered st
        \<or> (\<exists>s. delivered (fst (run_step md st inp)) = delivered st @ [Stats s]
              \<and> fst (compute_stats_from_window (self (fst (run_step md st inp)))) = Inr (Some s)))"
proof (intro conjI)
  show "(fst (compute_stats_from_window w) = Inr None) = (window w = [])"
    by (simp add: compute_stats_from_window_def compute_stats_None_iff)
next
  obtain rd now_ts where inp: "inp = (rd, now_ts)" by (cases inp)
  obtain w1 err where ra: "read_and_add md (self st) rd = (w1, err)"
    by (cases "read_and_add md (self st) rd")
  show "window (self (fst (run_step md st inp))) = [] \<longrightarrow>
        delivered (fst (run_step md st inp)) = delivered st"
    using compute_stats_cases [of "window w1"]
    by (auto simp: run_step_def inp ra compute_stats_from_window_def split: option.splits)
  show "delivered (fst (run_step md st inp)) = delivered st
        \<or> (\<exists>s. delivered (fst (run_step md st inp)) = delivered st @ [Stats s]
              \<and> fst (compute_stats_from_window (self (fst (run_step md st inp)))) = Inr (Some s))"
    using compute_stats_cases [of "window w1"]
    by (auto simp: run_step_def inp ra compute_stats_from_window_def split: option.splits)
qed

theorem empty_window_guard_witness:
  "window (self (fst (run_step 4300
       \<lparr> self = new_worker 60 1, last_print = 0, delivered = [Open_error] \<rparr>
       (Line ''hello'', 10)))) = []
   \<and> delivered (fst (run_step 4300
       \<lparr> self = new_worker 60 1, last_print = 0, delivered = [Open_error] \<rparr>
       (Line ''hello'', 10))) = [Open_error]
   \<and> last_print (fst (run_step 4300
       \<lparr> self = new_worker 60 1, last_print = 0, delivered = [Open_error] \<rparr>
       (Line ''hello'', 10))) = 10"
proof -
  let ?st = "\<lparr> self = new_worker 60 1, last_print = 0, delivered = [Open_error] \<rparr>"
  have p: "parse_log_line 4300 ''hello'' = Inr None"
    by (simp add: parser_defs)
  have step: "run_step 4300 ?st (Line ''hello'', 10)
      = (?st\<lparr>self := new_worker 60 1, last_print := 10\<rparr>, None)"
    by (simp add: run_step_def read_and_add_def p compute_stats_from_window_def
        compute_stats_def new_worker_def)
  have h: "window (self (fst (run_step 4300 ?st (Line ''hello'', 10)))) = []"
    unfolding step by (simp add: new_worker_def)
  have l: "last_print (fst (run_step 4300 ?st (Line ''hello'', 10))) = 10"
    by (simp add: step)
  from empty_window_guard [of "new_worker 60 1" 4300 ?st "(Line ''hello'', 10)"] h
  have "delivered (fst (run_step 4300 ?st (Line ''hello'', 10))) = delivered ?st"
    by blast
  then have d: "delivered (fst (run_step 4300 ?st (Line ''hello'', 10))) = [Open_error]"
    by simp
  show ?thesis
    by (intro conjI) (rule h, rule d, rule l)
qed

text \<open>
  C8, as the code has it. A read that returns no data raises nothing and leaves the worker
  as it is, so the iteration goes on to the periodic snapshot, and unless that computation
  raises, the loop goes on. An error raised by a read is caught nowhere: it ends that
  iteration, the loop and the worker at once, whatever would have been read later, and
  nothing is passed to the callback. A failed open is reported once through the callback.
\<close>

theorem read_error_ends_loop:
  "run_step md st (Read_raises, now_ts) = (st, Some OSError)
   \<and> run_loop md st ((Read_raises, now_ts) # rest) = (st, Some OSError)
   \<and> run md w True t0 ((Read_raises, now_ts) # rest)
       = (\<lparr> self = w, last_print = t0, delivered = [] \<rparr>, Some OSError)
   \<and> read_and_add md (self st) (Line []) = (self st, None)
   \<and> snd (run_step md st (Line [], now_ts))
       = (if of_int (refresh_secs (self st)) \<le> now_ts - last_print st
          then (case compute_stats (window (self st)) of Inl e \<Rightarrow> Some e | Inr r \<Rightarrow> None)
          else None)
   \<and> self (fst (run_step md st (Line [], now_ts))) = self st
   \<and> run md w False t0 inps = (\<lparr> self = w, last_print = t0, delivered = [Open_error] \<rparr>, None)"
proof -
  have a: "run_step md st (Read_raises, now_ts) = (st, Some OSError)" for st
    by (simp add: run_step_def read_and_add_def)
  have r: "read_and_add md (self st) (Line []) = (self st, None)"
    by (simp add: read_and_add_def)
  have b: "snd (run_step md st (Line [], now_ts))
       = (if of_int (refresh_secs (self st)) \<le> now_ts - last_print st
          then (case compute_stats (window (self st)) of Inl e \<Rightarrow> Some e | Inr r \<Rightarrow> None)
          else None)
      \<and> self (fst (run_step md st (Line [], now_ts))) = self st"
    by (auto simp: run_step_def r compute_stats_from_window_def split: sum.splits option.splits)
  show ?thesis
    using b r by (simp add: a run_def)
qed

text \<open>
  The claim as the specification states it fails: after a successful open, a read error in
  the first iteration ends the run with \<^verbatim>\<open>OSError\<close> and nothing delivered, where an
  empty read in its place lets the next line be read and a snapshot be delivered.
\<close>

theorem read_error_is_fatal:
  "snd (run 4300 (new_worker 60 1) True 0
          [(Read_raises, 1), (Line ''[24/11/25] [10:00:00]: You receive 5 Yang.'', 2)])
     = Some OSError
   \<and> delivered (fst (run 4300 (new_worker 60 1) True 0
          [(Read_raises, 1), (Line ''[24/11/25] [10:00:00]: You receive 5 Yang.'', 2)]))
     = []
   \<and> snd (run 4300 (new_worker 60 1) True 0
          [(Line [], 1), (Line ''[24/11/25] [10:00:00]: You receive 5 Yang.'', 2)])
     = None
   \<and> delivered (fst (run 4300 (new_worker 60 1) True 0
          [(Line [], 1), (Line ''[24/11/25] [10:00:00]: You receive 5 Yang.'', 2)]))
     = [Stats \<lparr> start_time = clock 10 0 0, end_time = clock 10 0 0,
                 hours = Finite 5124095576030431 (- 64),
                 minutes = Finite 4803839602528529 (- 58), total_yang = 5,
                 yang_per_hour = 18000, yang_per_minute = 300, items = [] \<rparr>]"
proof -
  let ?l = "''[24/11/25] [10:00:00]: You receive 5 Yang.''"
  let ?s0 = "\<lparr> self = new_worker 60 1, last_print = 0, delivered = [] \<rparr>"
  have bad: "run 4300 (new_worker 60 1) True 0 [(Read_raises, 1), (Line ?l, 2)]
      = (?s0, Some OSError)"
    by (simp add: run_def run_step_def read_and_add_def)
  have ne: "?l \<noteq> []" by simp
  have add: "add_event (new_worker 60 1) (loot (clock 10 0 0) 5 ''Yang'')
      = ((new_worker 60 1)\<lparr>window := [loot (clock 10 0 0) 5 ''Yang'']\<rparr>, None)"
    by (simp add: add_event_def minus_minutes_def loot_secs clock_secs max_secs_def new_worker_def)
  have st: "compute_stats [loot (clock 10 0 0) 5 ''Yang'']
      = Inr (Some \<lparr> start_time = clock 10 0 0, end_time = clock 10 0 0,
                 hours = Finite 5124095576030431 (- 64),
                 minutes = Finite 4803839602528529 (- 58), total_yang = 5,
                 yang_per_hour = 18000, yang_per_minute = 300, items = [] \<rparr>)"
    by code_simp
  have s1: "run_step 4300 ?s0 (Line [], 1)
      = (\<lparr> self = new_worker 60 1, last_print = 1, delivered = [] \<rparr>, None)"
    by (simp add: run_step_def read_and_add_def compute_stats_from_window_def compute_stats_def
        new_worker_def)
  have s2: "run_step 4300 \<lparr> self = new_worker 60 1, last_print = 1, delivered = [] \<rparr> (Line ?l, 2)
      = (\<lparr> self = (new_worker 60 1)\<lparr>window := [loot (clock 10 0 0) 5 ''Yang'']\<rparr>,
            last_print = 2,
            delivered = [Stats \<lparr> start_time = clock 10 0 0, end_time = clock 10 0 0,
                 hours = Finite 5124095576030431 (- 64),
                 minutes = Finite 4803839602528529 (- 58), total_yang = 5,
                 yang_per_hour = 18000, yang_per_minute = 300, items = [] \<rparr>] \<rparr>, None)"
    unfolding run_step_def read_and_add_def
    by (simp add: parse_sample_line add compute_stats_from_window_def st)
       (simp add: new_worker_def)
  have good: "run 4300 (new_worker 60 1) True 0 [(Line [], 1), (Line ?l, 2)]
      = (\<lparr> self = (new_worker 60 1)\<lparr>window := [loot (clock 10 0 0) 5 ''Yang'']\<rparr>,
            last_print = 2,
            delivered = [Stats \<lparr> start_time = clock 10 0 0, end_time = clock 10 0 0,
                 hours = Finite 5124095576030431 (- 64),
                 minutes = Finite 4803839602528529 (- 58), total_yang = 5,
                 yang_per_hour = 18000, yang_per_minute = 300, items = [] \<rparr>] \<rparr>, None)"
    unfolding run_def by (simp add: s1 s2 del: list.simps)
  show ?thesis
    unfolding bad good by simp
qed

section \<open>Properties of the snapshot method on the store\<close>

lemma fill_items_qty_length: "length (fill_items_qty a evs st) = length st"
  by (induction evs arbitrary: st) simp_all

lemma fill_items_qty_frame: "n \<le> a \<Longrightarrow> take n (fill_items_qty a evs st) = take n st"
  by (induction evs arbitrary: st) (simp_all add: take_update_cancel)

lemma fill_items_qty_content:
  "a < length st \<Longrightarrow> st ! a = Dict d \<Longrightarrow>
     fill_items_qty a evs st ! a = Dict (collect_items evs d)"
  by (induction evs arbitrary: st d) (simp_all add: get_dict_def)

lemma append_items_length: "length (snd (append_items h a d st)) = length st"
proof (induction d arbitrary: st)
  case Nil
  then show ?case by simp
next
  case (Cons x d)
  obtain name qty where x: "x = (name, qty)" by (cases x)
  show ?case by (simp add: x Cons.IH split: sum.splits)
qed

lemma append_items_frame: "n \<le> a \<Longrightarrow> take n (snd (append_items h a d st)) = take n st"
proof (induction d arbitrary: st)
  case Nil
  then show ?case by simp
next
  case (Cons x d)
  obtain name qty where x: "x = (name, qty)" by (cases x)
  show ?case using Cons.prems by (simp add: x Cons.IH take_update_cancel split: sum.splits)
qed

lemma append_items_content:
  "a < length st \<Longrightarrow> st ! a = Items l0 \<Longrightarrow>
     (case build_items h d of
        Inl e \<Rightarrow> fst (append_items h a d st) = Some e
      | Inr l \<Rightarrow> fst (append_items h a d st) = None
                 \<and> snd (append_items h a d st) ! a = Items (l0 @ l))"
proof (induction d arbitrary: st l0)
  case Nil
  then show ?case by simp
next
  case (Cons x d)
  obtain name qty where x: "x = (name, qty)" by (cases x)
  show ?case
  proof (cases "rate qty h")
    case (Inl e)
    then show ?thesis by (simp add: x)
  next
    case (Inr r)
    let ?st = "st[a := Items (get_items st a @ [(name, qty, r)])]"
    have a: "a < length ?st" using Cons.prems(1) by simp
    have b: "?st ! a = Items (l0 @ [(name, qty, r)])"
      using Cons.prems by (simp add: get_items_def)
    from Cons.IH [OF a b] show ?thesis
      by (simp add: x Inr split: sum.splits)
  qed
qed

text \<open>
  The run of the method on a non-empty window, written out: the three new objects, and the
  case distinction on the rates in the order of the source.
\<close>

lemma store_method_unfolded:
  assumes ne: "get_events st w \<noteq> []"
  defines "evs \<equiv> get_events st w"
  defines "n \<equiv> length st"
  defines "st3 \<equiv> fill_items_qty (Suc n) evs (st @ [Events evs, Dict []])"
  defines "tot \<equiv> sum_list (map quantity (filter is_yang evs))"
  shows "compute_stats_from_window_store w st =
     (case elapsed_seconds (ts (hd evs)) (ts (last evs)) of
        Inl e \<Rightarrow> (Inl e, st3)
      | Inr elapsed \<Rightarrow>
     (case float_div elapsed (Finite 3600 0) of
        Inl e \<Rightarrow> (Inl e, st3)
      | Inr h \<Rightarrow>
     (case float_div elapsed (Finite 60 0) of
        Inl e \<Rightarrow> (Inl e, st3)
      | Inr m \<Rightarrow>
     (case append_items h (Suc (Suc n)) (collect_items evs []) (st3 @ [Items []]) of
        (Some e, st5) \<Rightarrow> (Inl e, st5)
      | (None, st5) \<Rightarrow>
     (case rate tot h of
        Inl e \<Rightarrow> (Inl e, st5[Suc (Suc n) := Items (sort_by_qty_desc (get_items st5 (Suc (Suc n))))])
      | Inr per_hour \<Rightarrow>
     (case rate tot m of
        Inl e \<Rightarrow> (Inl e, st5[Suc (Suc n) := Items (sort_by_qty_desc (get_items st5 (Suc (Suc n))))])
      | Inr per_minute \<Rightarrow>
          (Inr (Some (Suc (Suc n),
             \<lparr> start_time = ts (hd evs), end_time = ts (last evs),
               hours = h, minutes = m, total_yang = tot,
               yang_per_hour = per_hour, yang_per_minute = per_minute,
               items = get_items (st5[Suc (Suc n) := Items (sort_by_qty_desc (get_items st5 (Suc (Suc n))))])
                         (Suc (Suc n)) \<rparr>)),
           st5[Suc (Suc n) := Items (sort_by_qty_desc (get_items st5 (Suc (Suc n))))])))))))"
proof -
  have e1: "get_events (st @ [Events evs]) n = evs"
    by (simp add: get_events_def n_def)
  have l3: "length st3 = Suc (Suc n)"
    by (simp add: st3_def fill_items_qty_length n_def)
  have "(st @ [Events evs, Dict []]) ! Suc n = Dict []"
    by (simp add: n_def nth_append)
  then have "st3 ! Suc n = Dict (collect_items evs [])"
    unfolding st3_def by (intro fill_items_qty_content) (simp_all add: n_def)
  then have d: "get_dict (st3 @ [Items []]) (Suc n) = collect_items evs []"
    using l3 by (simp add: get_dict_def nth_append)
  have st2: "st @ [Events evs] @ [Dict []] = st @ [Events evs, Dict []]" by simp
  show ?thesis
    using ne
    unfolding compute_stats_from_window_store_def alloc_def Let_def evs_def [symmetric]
    by (simp add: e1 n_def [symmetric] st3_def [symmetric] l3 d tot_def [symmetric]
        del: float_div.simps fill_items_qty.simps
        cong: sum.case_cong prod.case_cong option.case_cong)
qed

text \<open>
  The method leaves every object that was in the store before the call as it was: it writes
  only to the three objects it creates.
\<close>

lemma store_method_frame:
  "take (length st) (snd (compute_stats_from_window_store w st)) = st"
proof (cases "get_events st w = []")
  case True
  then show ?thesis by (simp add: compute_stats_from_window_store_def)
next
  case False
  let ?evs = "get_events st w"
  let ?n = "length st"
  let ?a = "Suc (Suc ?n)"
  let ?st3 = "fill_items_qty (Suc ?n) ?evs (st @ [Events ?evs, Dict []])"
  have l3: "length ?st3 = ?a" by (simp add: fill_items_qty_length)
  have "take ?n ?st3 = take ?n (st @ [Events ?evs, Dict []])"
    by (rule fill_items_qty_frame) simp
  then have f3: "take ?n ?st3 = st" by simp
  have f5: "take ?n (snd (append_items h ?a d (?st3 @ [Items []]))) = st" for h d
  proof -
    have "take ?n (snd (append_items h ?a d (?st3 @ [Items []]))) = take ?n (?st3 @ [Items []])"
      by (rule append_items_frame) simp
    also have "\<dots> = take ?n ?st3" using l3 by simp
    finally show ?thesis using f3 by simp
  qed
  show ?thesis
    unfolding store_method_unfolded [OF False]
    by (simp add: f3 f5 case_prod_beta take_update_cancel del: fill_items_qty.simps
        split: sum.splits option.splits)
qed

text \<open>
  What the method returns is what the function \<open>compute_stats\<close> gives on the content of
  the deque.
\<close>

lemma store_method_refines:
  "snapshot_value (fst (compute_stats_from_window_store w st)) = compute_stats (get_events st w)"
proof (cases "get_events st w = []")
  case True
  then show ?thesis
    by (simp add: compute_stats_from_window_store_def compute_stats_def snapshot_value_def)
next
  case False
  let ?evs = "get_events st w"
  let ?n = "length st"
  let ?a = "Suc (Suc ?n)"
  let ?st3 = "fill_items_qty (Suc ?n) ?evs (st @ [Events ?evs, Dict []])"
  let ?d = "collect_items ?evs []"
  have l3: "length ?st3 = ?a" by (simp add: fill_items_qty_length)
  have a4: "?a < length (?st3 @ [Items []])" using l3 by simp
  have i4: "(?st3 @ [Items []]) ! ?a = Items []" using l3 by (simp add: nth_append)
  note c = append_items_content [OF a4 i4]
  have l5: "length (snd (append_items h ?a ?d (?st3 @ [Items []]))) = Suc ?a" for h
    using l3 by (simp add: append_items_length)
  note U = store_method_unfolded [OF False]
  show ?thesis
  proof (cases "elapsed_seconds (ts (hd ?evs)) (ts (last ?evs))")
    case (Inl e)
    then show ?thesis
      unfolding U compute_stats_def using False by (simp add: snapshot_value_def Let_def)
  next
    case el: (Inr elapsed)
    show ?thesis
    proof (cases "float_div elapsed (Finite 3600 0)")
      case (Inl e)
      then show ?thesis
        unfolding U compute_stats_def using False el by (simp add: snapshot_value_def Let_def)
    next
      case h: (Inr h)
      show ?thesis
      proof (cases "float_div elapsed (Finite 60 0)")
        case (Inl e)
        then show ?thesis
          unfolding U compute_stats_def using False el h
          by (simp add: snapshot_value_def Let_def)
      next
        case m: (Inr m)
        show ?thesis
        proof (cases "build_items h ?d")
          case (Inl e)
          with c [of h ?d] have "fst (append_items h ?a ?d (?st3 @ [Items []])) = Some e"
            by simp
          then show ?thesis
            unfolding U compute_stats_def using False el h m Inl
            by (simp add: snapshot_value_def Let_def case_prod_beta del: fill_items_qty.simps)
        next
          case (Inr l)
          with c [of h ?d]
          have f: "fst (append_items h ?a ?d (?st3 @ [Items []])) = None"
            and s: "snd (append_items h ?a ?d (?st3 @ [Items []])) ! ?a = Items l"
            by simp_all
          have g: "get_items (snd (append_items h ?a ?d (?st3 @ [Items []]))) ?a = l"
            using s l5 [of h] by (simp add: get_items_def)
          have g': "get_items ((snd (append_items h ?a ?d (?st3 @ [Items []])))[?a := Items x]) ?a = x"
            for x
            using l5 [of h] by (simp add: get_items_def)
          show ?thesis
            unfolding U compute_stats_def using False el h m Inr
            by (simp add: snapshot_value_def Let_def case_prod_beta f g g'
                del: fill_items_qty.simps split: sum.splits)
        qed
      qed
    qed
  qed
qed

lemma take_eq_imp_le: "take (length ys) xs = ys \<Longrightarrow> length ys \<le> length xs"
  by (metis length_take min.cobounded1)

lemma store_method_result:
  assumes r: "fst (compute_stats_from_window_store w st) = Inr (Some (a, s))"
  shows "a = Suc (Suc (length st))"
    and "length (snd (compute_stats_from_window_store w st)) = Suc a"
    and "get_items (snd (compute_stats_from_window_store w st)) a = items s"
proof -
  have ne: "get_events st w \<noteq> []"
    using r by (auto simp add: compute_stats_from_window_store_def)
  let ?evs = "get_events st w"
  let ?n = "length st"
  let ?a = "Suc (Suc ?n)"
  let ?st3 = "fill_items_qty (Suc ?n) ?evs (st @ [Events ?evs, Dict []])"
  have l3: "length ?st3 = ?a" by (simp add: fill_items_qty_length)
  have l5: "length (snd (append_items h ?a d (?st3 @ [Items []]))) = Suc ?a" for h d
    using l3 by (simp add: append_items_length)
  note U = store_method_unfolded [OF ne]
  from r show "a = Suc (Suc (length st))"
    unfolding U
    by (simp add: case_prod_beta del: fill_items_qty.simps split: sum.splits option.splits)
  from r show "length (snd (compute_stats_from_window_store w st)) = Suc a"
    unfolding U
    by (auto simp add: case_prod_beta l5 simp del: fill_items_qty.simps
        split: sum.splits option.splits)
  from r show "get_items (snd (compute_stats_from_window_store w st)) a = items s"
    unfolding U
    by (auto simp add: case_prod_beta simp del: fill_items_qty.simps
        split: sum.splits option.splits)
qed

text \<open>
  C6. Computing a snapshot writes to no object that was in the store before the call: the
  deque \<^verbatim>\<open>self.window\<close> and every other object read the same afterwards, the method
  changes only the copy, the dictionary and the list it creates itself. What it returns is
  a function of the content of the deque alone, namely \<open>compute_stats\<close> of it. Hence a
  second call on the store that the first call left behind returns an equal snapshot, in
  every field and in the order of the items; and the list of items of the first snapshot is
  a new object, which holds the items of the snapshot at the return and is not changed by
  the second call.
\<close>

theorem snapshot_pure:
  "take (length st) (snd (compute_stats_from_window_store w st)) = st
   \<and> get_events (snd (compute_stats_from_window_store w st)) w = get_events st w
   \<and> snapshot_value (fst (compute_stats_from_window_store w st)) = compute_stats (get_events st w)
   \<and> snapshot_value (fst (compute_stats_from_window_store w
          (snd (compute_stats_from_window_store w st))))
       = snapshot_value (fst (compute_stats_from_window_store w st))
   \<and> (fst (compute_stats_from_window_store w st) = Inr (Some (a, s)) \<longrightarrow>
        length st < a
        \<and> get_items (snd (compute_stats_from_window_store w st)) a = items s
        \<and> get_items (snd (compute_stats_from_window_store w
              (snd (compute_stats_from_window_store w st)))) a = items s)"
proof -
  let ?st' = "snd (compute_stats_from_window_store w st)"
  let ?st'' = "snd (compute_stats_from_window_store w ?st')"
  have frame: "take (length st) ?st' = st" by (rule store_method_frame)
  have window: "get_events ?st' w = get_events st w"
  proof (cases "w < length st")
    case True
    have "length st \<le> length ?st'"
      using frame by (rule take_eq_imp_le)
    moreover have "?st' ! w = take (length st) ?st' ! w" using True by simp
    ultimately show ?thesis using True frame by (simp add: get_events_def)
  next
    case False
    then have "get_events st w = []" by (simp add: get_events_def)
    then have "?st' = st" by (simp add: compute_stats_from_window_store_def)
    then show ?thesis by simp
  qed
  have refines: "snapshot_value (fst (compute_stats_from_window_store w st))
      = compute_stats (get_events st w)"
    by (rule store_method_refines)
  have again: "snapshot_value (fst (compute_stats_from_window_store w ?st'))
      = snapshot_value (fst (compute_stats_from_window_store w st))"
    using store_method_refines [of w ?st'] window refines by simp
  have fresh: "length st < a \<and> get_items ?st' a = items s \<and> get_items ?st'' a = items s"
    if r: "fst (compute_stats_from_window_store w st) = Inr (Some (a, s))"
  proof -
    note res = store_method_result [OF r]
    have f2: "take (length ?st') ?st'' = ?st'" by (rule store_method_frame)
    have a: "a < length ?st'" using res(2) by simp
    have "length ?st' \<le> length ?st''"
      using f2 by (rule take_eq_imp_le)
    moreover have "?st'' ! a = take (length ?st') ?st'' ! a" using a by simp
    ultimately have "get_items ?st'' a = get_items ?st' a"
      using a f2 by (simp add: get_items_def)
    then show ?thesis using res by simp
  qed
  show ?thesis using frame window refines again fresh by blast
qed

theorem snapshot_pure_witness:
  "fst (compute_stats_from_window_store 0
      [Events [loot (clock 10 0 0) 30 ''A'', loot (clock 10 0 0) 20 ''B'',
               loot (clock 10 0 0) 50 ''C'', loot (clock 10 0 0) 30 ''B'']])
     = Inr (Some (3, \<lparr> start_time = clock 10 0 0, end_time = clock 10 0 0,
                    hours = Finite 5124095576030431 (- 64),
                    minutes = Finite 4803839602528529 (- 58), total_yang = 0,
                    yang_per_hour = 0, yang_per_minute = 0,
                    items = [(''B'', 50, 180000), (''C'', 50, 180000), (''A'', 30, 108000)] \<rparr>))
   \<and> get_items (snd (compute_stats_from_window_store 0
        [Events [loot (clock 10 0 0) 30 ''A'', loot (clock 10 0 0) 20 ''B'',
                 loot (clock 10 0 0) 50 ''C'', loot (clock 10 0 0) 30 ''B'']])) 3
     = [(''B'', 50, 180000), (''C'', 50, 180000), (''A'', 30, 108000)]
   \<and> get_items (snd (compute_stats_from_window_store 0
        (snd (compute_stats_from_window_store 0
          [Events [loot (clock 10 0 0) 30 ''A'', loot (clock 10 0 0) 20 ''B'',
                   loot (clock 10 0 0) 50 ''C'', loot (clock 10 0 0) 30 ''B'']])))) 3
     = [(''B'', 50, 180000), (''C'', 50, 180000), (''A'', 30, 108000)]"
proof -
  let ?st = "[Events [loot (clock 10 0 0) 30 ''A'', loot (clock 10 0 0) 20 ''B'',
               loot (clock 10 0 0) 50 ''C'', loot (clock 10 0 0) 30 ''B'']]"
  let ?s = "\<lparr> start_time = clock 10 0 0, end_time = clock 10 0 0,
                    hours = Finite 5124095576030431 (- 64),
                    minutes = Finite 4803839602528529 (- 58), total_yang = 0,
                    yang_per_hour = 0, yang_per_minute = 0,
                    items = [(''B'', 50, 180000), (''C'', 50, 180000), (''A'', 30, 108000)] \<rparr>"
  have r: "fst (compute_stats_from_window_store 0 ?st) = Inr (Some (3, ?s))" by code_simp
  from snapshot_pure [of ?st 0 3 ?s] r
  have "get_items (snd (compute_stats_from_window_store 0 ?st)) 3 = items ?s"
    and "get_items (snd (compute_stats_from_window_store 0
           (snd (compute_stats_from_window_store 0 ?st)))) 3 = items ?s"
    by blast+
  then have "get_items (snd (compute_stats_from_window_store 0 ?st)) 3
        = [(''B'', 50, 180000), (''C'', 50, 180000), (''A'', 30, 108000)]"
    and "get_items (snd (compute_stats_from_window_store 0
           (snd (compute_stats_from_window_store 0 ?st)))) 3
        = [(''B'', 50, 180000), (''C'', 50, 180000), (''A'', 30, 108000)]"
    by (simp_all only: stats.simps)
  with r show ?thesis by blast
qed

end
